theory Spec2Isabelle
  imports Main "HOL-Library.Sublist"
begin

section \<open>Strings of the host language\<close>

text \<open>
  A string of the plugin is modelled as a \<^typ>\<open>string\<close>; every \<^typ>\<open>char\<close> stands for one
  UTF-16 code unit below 256 (the Latin-1 range). The white space class of the source's
  regular expressions (\<^verbatim>\<open>\s\<close>) and of \<^verbatim>\<open>trim()\<close> is, in that range: TAB, LF, VT, FF, CR,
  SPACE and the no-break space.
\<close>

definition is_space :: "char \<Rightarrow> bool" where
  "is_space c = (c \<in> set [CHR 0x09, CHR 0x0A, CHR 0x0B, CHR 0x0C, CHR 0x0D, CHR 0x20, CHR 0xA0])"

text \<open>The class \<^verbatim>\<open>[\\/:"*?<>|]\<close> of \<^verbatim>\<open>sanitizeName\<close>.\<close>

definition is_illegal :: "char \<Rightarrow> bool" where
  "is_illegal c = (c \<in> set [CHR 0x5C, CHR ''/'', CHR '':'', CHR 0x22, CHR ''*'', CHR ''?'',
                             CHR ''<'', CHR ''>'', CHR ''|''])"

text \<open>\<^verbatim>\<open>String.prototype.trim\<close>.\<close>

definition trim :: "string \<Rightarrow> string" where
  "trim s = rev (dropWhile is_space (rev (dropWhile is_space s)))"

text \<open>
  \<^verbatim>\<open>s.replace(/[C]+/g, r)\<close> for a character class \<open>C\<close> and a replacement \<open>r\<close> without
  \<^verbatim>\<open>$\<close>: the scan goes left to right, a match starts at the first character of the class and
  is greedy, and the scan goes on behind the match.
\<close>

function replace_runs :: "(char \<Rightarrow> bool) \<Rightarrow> string \<Rightarrow> string \<Rightarrow> string" where
  "replace_runs P r [] = []"
| "replace_runs P r (c # s) =
     (if P c then r @ replace_runs P r (dropWhile P s) else c # replace_runs P r s)"
  by pat_completeness auto
termination
  by (relation "measure (\<lambda>(P, r, s). length s)") (auto simp: le_imp_less_Suc length_dropWhile_le)

text \<open>\<^verbatim>\<open>sanitizeName\<close> (main.ts, 419-421).\<close>

definition sanitizeName :: "string \<Rightarrow> string" where
  "sanitizeName name = trim (replace_runs is_space '' '' (replace_runs is_illegal ''-'' name))"

text \<open>
  The words of the specification, for comparison: the string is cut into its maximal runs
  of characters inside the class and of characters outside of it, and every run inside the
  class is replaced by \<open>r\<close>.
\<close>

function maximal_runs :: "(char \<Rightarrow> bool) \<Rightarrow> string \<Rightarrow> string list" where
  "maximal_runs P [] = []"
| "maximal_runs P (c # s) =
     (c # takeWhile (\<lambda>d. P d = P c) s) # maximal_runs P (dropWhile (\<lambda>d. P d = P c) s)"
  by pat_completeness auto
termination
  by (relation "measure (\<lambda>(P, s). length s)") (auto simp: le_imp_less_Suc length_dropWhile_le)

definition collapse_runs_spec :: "(char \<Rightarrow> bool) \<Rightarrow> string \<Rightarrow> string \<Rightarrow> string" where
  "collapse_runs_spec P r s = concat (map (\<lambda>b. if P (hd b) then r else b) (maximal_runs P s))"

section \<open>Template expansion\<close>

text \<open>
  \<^verbatim>\<open>GetSubstitution\<close> of ECMAScript for a regular expression without capture groups: in the
  replacement text \<^verbatim>\<open>$$\<close> stands for a dollar sign, \<^verbatim>\<open>$&\<close> for the matched text,
  \<^verbatim>\<open>$`\<close> for the text before the match and \<^verbatim>\<open>$'\<close> for the text behind it; every other
  character, also a dollar sign before a digit or before \<^verbatim>\<open><\<close>, is copied.
  The arguments are the matched text, the text before it, the text behind it and the replacement.
\<close>

fun get_substitution :: "string \<Rightarrow> string \<Rightarrow> string \<Rightarrow> string \<Rightarrow> string" where
  "get_substitution m b a (c # d # t) =
     (if c = CHR ''$'' \<and> d = CHR ''$'' then CHR ''$'' # get_substitution m b a t
      else if c = CHR ''$'' \<and> d = CHR ''&'' then m @ get_substitution m b a t
      else if c = CHR ''$'' \<and> d = CHR 0x60 then b @ get_substitution m b a t
      else if c = CHR ''$'' \<and> d = CHR 0x27 then a @ get_substitution m b a t
      else c # get_substitution m b a (d # t))"
| "get_substitution m b a t = t"

text \<open>
  \<^verbatim>\<open>s.replace(/tok/g, r)\<close> for a literal, non-empty token: \<open>replace_all_from tok r pre s\<close>
  scans the rest \<open>s\<close> of the string, \<open>pre\<close> being the part already scanned.
\<close>

function replace_all_from :: "string \<Rightarrow> string \<Rightarrow> string \<Rightarrow> string \<Rightarrow> string" where
  "replace_all_from tok r pre [] = []"
| "replace_all_from tok r pre (c # s) =
     (if tok \<noteq> [] \<and> prefix tok (c # s)
      then get_substitution tok pre (drop (length tok) (c # s)) r
           @ replace_all_from tok r (pre @ tok) (drop (length tok) (c # s))
      else c # replace_all_from tok r (pre @ [c]) s)"
  by pat_completeness auto
termination
  by (relation "measure (\<lambda>(tok, r, pre, s). length s)") auto

definition replace_all :: "string \<Rightarrow> string \<Rightarrow> string \<Rightarrow> string" where
  "replace_all tok r s = replace_all_from tok r [] s"

text \<open>\<^verbatim>\<open>v || d\<close> on a string that may be missing: the default replaces a missing and an empty value.\<close>

definition or_default :: "string option \<Rightarrow> string \<Rightarrow> string" where
  "or_default v d = (case v of None \<Rightarrow> d | Some s \<Rightarrow> if s = [] then d else s)"

text \<open>\<^verbatim>\<open>applyVariables\<close> (main.ts, 402-409); \<open>vars\<close> is the dictionary of the variables.\<close>

definition applyVariables :: "string \<Rightarrow> (string \<rightharpoonup> string) \<Rightarrow> string" where
  "applyVariables pattern vars =
     replace_all ''${index}'' (or_default (vars ''index'') ''01'')
      (replace_all ''${date}'' (or_default (vars ''date'') [])
       (replace_all ''${extension}'' (or_default (vars ''extension'') [])
        (replace_all ''${original}'' (or_default (vars ''original'') ''file'')
         (replace_all ''${filename}'' (or_default (vars ''filename'') ''note'') pattern))))"

text \<open>
  Lines 268-269 of \<^verbatim>\<open>processNoteAttachments\<close>: the new base name is the sanitized expansion
  of the name pattern, or the placeholder when that is empty.
\<close>

definition newBaseName :: "string \<Rightarrow> (string \<rightharpoonup> string) \<Rightarrow> string" where
  "newBaseName namePattern variables =
     (let b = sanitizeName (applyVariables namePattern variables)
      in if length b = 0 then ''attachment'' else b)"

section \<open>Stripping the old note name\<close>

text \<open>\<^verbatim>\<open>s.includes(t)\<close>.\<close>

fun includes_str :: "string \<Rightarrow> string \<Rightarrow> bool" where
  "includes_str [] t = (t = [])"
| "includes_str (c # s) t = (prefix t (c # s) \<or> includes_str s t)"

text \<open>The class \<^verbatim>\<open>[\s-_]\<close>: white space, hyphen and underscore.\<close>

definition is_sep :: "char \<Rightarrow> bool" where
  "is_sep c = (is_space c \<or> c = CHR ''-'' \<or> c = CHR ''_'')"

text \<open>
  The regular expression \<^verbatim>\<open>[\s-_]*old[\s-_]*\<close>, where the escaping of line 338 makes \<open>old\<close>
  a literal: \<open>match_padded old s\<close> is the rest of \<open>s\<close> behind the match that starts at the first
  character of \<open>s\<close>, if there is one. The first star is greedy and gives characters back
  one at a time; the last star is greedy.
\<close>

fun match_padded :: "string \<Rightarrow> string \<Rightarrow> string option" where
  "match_padded old [] = (if old = [] then Some [] else None)"
| "match_padded old (c # s) =
     (case (if is_sep c then match_padded old s else None) of
        Some rest \<Rightarrow> Some rest
      | None \<Rightarrow>
          if prefix old (c # s) then Some (dropWhile is_sep (drop (length old) (c # s)))
          else None)"

text \<open>
  \<^verbatim>\<open>s.replace(regex, ' ')\<close> with the global flag. The source calls it with a non-empty
  \<open>old\<close> only (line 335), so that every match is non-empty; behind an empty match ECMAScript
  copies one character and goes on.
\<close>

function replace_padded :: "string \<Rightarrow> string \<Rightarrow> string" where
  "replace_padded old [] = (if old = [] then [CHR 0x20] else [])"
| "replace_padded old (c # s) =
     (case match_padded old (c # s) of
        Some rest \<Rightarrow>
          if length rest < length (c # s) then CHR 0x20 # replace_padded old rest
          else CHR 0x20 # c # replace_padded old s
      | None \<Rightarrow> c # replace_padded old s)"
  by pat_completeness auto
termination
  by (relation "measure (\<lambda>(old, s). length s)") auto

text \<open>\<^verbatim>\<open>getCleanOriginalName\<close> (main.ts, 334-344); \<open>None\<close> is \<^verbatim>\<open>null\<close>.\<close>

definition getCleanOriginalName :: "string \<Rightarrow> string option \<Rightarrow> string" where
  "getCleanOriginalName currentBase oldNoteName =
     (case oldNoteName of
        None \<Rightarrow> currentBase
      | Some old \<Rightarrow>
          if old = [] then currentBase
          else let clean = (if includes_str currentBase old
                            then trim (replace_padded old currentBase) else currentBase)
               in if clean = [] then ''Attachment'' else clean)"

text \<open>
  The words of the specification, for comparison: a pattern read as a sequence of segments,
  each one a piece of text, one of the five placeholder tokens, or a token
  \<^verbatim>\<open>${name}\<close> with another name; and its expansion in a single pass, where a placeholder
  gives the value of its variable (or the fallback) and every other segment is copied.
\<close>

datatype tvar = Filename | Original | Extension | Date | Index

fun name_of :: "tvar \<Rightarrow> string" where
  "name_of Filename = ''filename''"
| "name_of Original = ''original''"
| "name_of Extension = ''extension''"
| "name_of Date = ''date''"
| "name_of Index = ''index''"

fun fallback_of :: "tvar \<Rightarrow> string" where
  "fallback_of Filename = ''note''"
| "fallback_of Original = ''file''"
| "fallback_of Extension = []"
| "fallback_of Date = []"
| "fallback_of Index = ''01''"

definition value_of :: "(string \<rightharpoonup> string) \<Rightarrow> tvar \<Rightarrow> string" where
  "value_of vars v = or_default (vars (name_of v)) (fallback_of v)"

datatype segment = Text string | Placeholder tvar | Unknown string

fun render :: "segment \<Rightarrow> string" where
  "render (Text t) = t"
| "render (Placeholder v) = ''${'' @ name_of v @ ''}''"
| "render (Unknown n) = ''${'' @ n @ ''}''"

fun segment_ok :: "segment \<Rightarrow> bool" where
  "segment_ok (Text t) = (CHR ''$'' \<notin> set t)"
| "segment_ok (Placeholder v) = True"
| "segment_ok (Unknown n) =
     (CHR ''$'' \<notin> set n \<and> CHR ''}'' \<notin> set n \<and>
      n \<notin> set [''filename'', ''original'', ''extension'', ''date'', ''index''])"

fun expand_segment :: "(string \<rightharpoonup> string) \<Rightarrow> segment \<Rightarrow> string" where
  "expand_segment vars (Text t) = t"
| "expand_segment vars (Placeholder v) = value_of vars v"
| "expand_segment vars (Unknown n) = ''${'' @ n @ ''}''"

definition expand_single_pass_spec :: "segment list \<Rightarrow> (string \<rightharpoonup> string) \<Rightarrow> string" where
  "expand_single_pass_spec segs vars = concat (map (expand_segment vars) segs)"

text \<open>One pass of the expansion replaces the placeholders of one variable.\<close>

fun substitute_var :: "tvar \<Rightarrow> string \<Rightarrow> segment \<Rightarrow> segment" where
  "substitute_var v r (Placeholder w) = (if w = v then Text r else Placeholder w)"
| "substitute_var v r seg = seg"

section \<open>Settings\<close>

datatype ScopeMode = ScopeVault | ScopeInclude | ScopeExclude

datatype LocationMode = LocPattern | LocOriginal

text \<open>
  \<^verbatim>\<open>AttachmentRule\<close> and \<^verbatim>\<open>PluginSettings\<close> (main.ts, 20-37). The field \<^verbatim>\<open>id\<close> is
  \<open>rule_id\<close> here; a rule loaded from an older configuration may lack its
  \<^verbatim>\<open>locationMode\<close>, which the source reads as \<^verbatim>\<open>rule.locationMode || 'pattern'\<close>.
\<close>

record AttachmentRule =
  rule_id :: string
  label :: string
  extensions :: "string list"
  namePattern :: string
  pathPattern :: string
  locationMode :: "LocationMode option"

record PluginSettings =
  scopeMode :: ScopeMode
  watchedPaths :: "string list"
  rules :: "AttachmentRule list"
  defaultNamePattern :: string
  defaultPathPattern :: string
  enableAutoRename :: bool
  debounceDelay :: nat

definition DEFAULT_SETTINGS :: PluginSettings where
  "DEFAULT_SETTINGS =
     \<lparr> scopeMode = ScopeVault,
       watchedPaths = [''Projects/Active''],
       rules =
         [\<lparr> rule_id = ''default-image'', label = ''Images'',
             extensions = [''png'', ''jpg'', ''jpeg'', ''gif'', ''webp'', ''svg'', ''bmp''],
             namePattern = ''${filename} ${original}'', pathPattern = ''./assets'',
             locationMode = Some LocPattern \<rparr>,
          \<lparr> rule_id = ''default-pdf'', label = ''PDFs'',
             extensions = [''pdf''],
             namePattern = ''${filename} ${original}'', pathPattern = ''Documents/Attachments'',
             locationMode = Some LocPattern \<rparr>],
       defaultNamePattern = ''${filename} ${original}'',
       defaultPathPattern = ''./attachments'',
       enableAutoRename = True,
       debounceDelay = 2000 \<rparr>"

section \<open>The host application\<close>

text \<open>
  The plugin runs inside a host application, whose code is not part of the repository. The
  host is a parameter of the model: a record of the operations that the plugin calls, over a
  host state of type \<open>'h\<close>. A file object (\<^verbatim>\<open>TFile\<close>) is a reference, here a number; its
  fields are read from the current host state, since the host updates them when the file is
  renamed. An operation of the host that throws or rejects returns an error.
\<close>

datatype error = HostError | CannotCreateFolder string

datatype TAbstractFile = TFile nat | TFolder string

text \<open>The metadata of a note: the link texts of its embeds and of its links.\<close>

record Cache =
  embeds :: "string list option"
  links :: "string list option"

record 'h Host =
  getFileCache :: "'h \<Rightarrow> nat \<Rightarrow> error + Cache option"
  getFirstLinkpathDest :: "'h \<Rightarrow> string \<Rightarrow> string \<Rightarrow> error + nat option"
  getAbstractFileByPath :: "'h \<Rightarrow> string \<Rightarrow> TAbstractFile option"
  renameFile :: "'h \<Rightarrow> nat \<Rightarrow> string \<Rightarrow> error + 'h"
  createFolder :: "'h \<Rightarrow> string \<Rightarrow> error + 'h"
  sleep :: "'h \<Rightarrow> 'h"
  normalizePath :: "string \<Rightarrow> string"
  file_path :: "'h \<Rightarrow> nat \<Rightarrow> string"
  file_basename :: "'h \<Rightarrow> nat \<Rightarrow> string"
  file_extension :: "'h \<Rightarrow> nat \<Rightarrow> string"
  file_parent :: "'h \<Rightarrow> nat \<Rightarrow> string option"
  now :: "'h \<Rightarrow> nat \<times> nat \<times> nat"

text \<open>
  \<open>sleep\<close> is the host state after the wait of 100 ms of line 199; \<open>file_parent\<close> is the path of
  the parent folder, if the file has one; \<open>now\<close> is the year, the month (from 0) and the
  day of \<^verbatim>\<open>new Date()\<close>. \<^verbatim>\<open>existing.path\<close> of an abstract file:
\<close>

fun abstract_path :: "'h Host \<Rightarrow> 'h \<Rightarrow> TAbstractFile \<Rightarrow> string" where
  "abstract_path H h (TFile f) = file_path H h f"
| "abstract_path H h (TFolder p) = p"

text \<open>The state of the plugin: the state of the host and the set of the notes in progress.\<close>

record 'h Plugin =
  host :: 'h
  isProcessing :: "string set"

section \<open>Numbers as text\<close>

definition digit :: "nat \<Rightarrow> char" where
  "digit n = char_of (48 + n)"

text \<open>\<^verbatim>\<open>n.toString()\<close> of a natural number.\<close>

function string_of_nat :: "nat \<Rightarrow> string" where
  "string_of_nat n = (if n < 10 then [digit n] else string_of_nat (n div 10) @ [digit (n mod 10)])"
  by pat_completeness auto
termination
  by (relation "measure id") auto

declare string_of_nat.simps [simp del]

text \<open>\<^verbatim>\<open>s.padStart(2, '0')\<close>.\<close>

definition padStart2 :: "string \<Rightarrow> string" where
  "padStart2 s = (if length s < 2 then replicate (2 - length s) (CHR ''0'') @ s else s)"

text \<open>\<^verbatim>\<open>getFormattedDate\<close> (main.ts, 411-417).\<close>

definition getFormattedDate :: "'h Host \<Rightarrow> 'h \<Rightarrow> string" where
  "getFormattedDate H h =
     (case now H h of (year, month, day) \<Rightarrow>
        string_of_nat year @ padStart2 (string_of_nat (month + 1)) @ padStart2 (string_of_nat day))"

text \<open>\<^verbatim>\<open>toLowerCase\<close> on the code units below 256.\<close>

definition lower_char :: "char \<Rightarrow> char" where
  "lower_char c =
     (let n = of_char c :: nat
      in if (65 \<le> n \<and> n \<le> 90) \<or> (192 \<le> n \<and> n \<le> 222 \<and> n \<noteq> 215) then char_of (n + 32) else c)"

definition toLowerCase :: "string \<Rightarrow> string" where
  "toLowerCase s = map lower_char s"

section \<open>Rules, scope and target paths\<close>

text \<open>\<^verbatim>\<open>getRuleForExtension\<close> (main.ts, 395-400).\<close>

definition getRuleForExtension :: "PluginSettings \<Rightarrow> string \<Rightarrow> AttachmentRule option" where
  "getRuleForExtension settings ext =
     find (\<lambda>r. list_ex (\<lambda>e. toLowerCase e = toLowerCase ext) (extensions r)) (rules settings)"

text \<open>\<^verbatim>\<open>isScopeValid\<close> (main.ts, 379-393).\<close>

definition isScopeValid :: "'h Host \<Rightarrow> PluginSettings \<Rightarrow> string \<Rightarrow> bool" where
  "isScopeValid H settings filePath =
     (if scopeMode settings = ScopeVault then True
      else let normalizedFilePath = normalizePath H filePath;
               validWatchedPaths =
                 filter (\<lambda>p. p \<noteq> [] \<and> p \<noteq> ''/'') (map (normalizePath H) (watchedPaths settings))
           in if length validWatchedPaths = 0 then True
              else let isMatch = list_ex (\<lambda>folder. normalizedFilePath = folder \<or>
                                      prefix (folder @ ''/'') normalizedFilePath) validWatchedPaths
                   in if scopeMode settings = ScopeInclude then isMatch
                      else if scopeMode settings = ScopeExclude then \<not> isMatch
                      else True)"

text \<open>\<^verbatim>\<open>resolveTargetPath\<close> (main.ts, 346-355).\<close>

definition resolveTargetPath :: "'h Host \<Rightarrow> 'h \<Rightarrow> string \<Rightarrow> nat \<Rightarrow> string" where
  "resolveTargetPath H h pathPat noteFile =
     (if prefix ''./'' pathPat
      then let parentPath = (case file_parent H h noteFile of Some p \<Rightarrow> p | None \<Rightarrow> ''/'');
               cleanRel = drop 2 pathPat
           in if parentPath = ''/'' then normalizePath H cleanRel
              else normalizePath H (parentPath @ ''/'' @ cleanRel)
      else normalizePath H pathPat)"

text \<open>
  \<^verbatim>\<open>resolveCollision\<close> (main.ts, 357-377). The loop state is the candidate path and the
  suffix (\<open>sfx\<close>); \<open>ext\<close> is the extension of the current file.
\<close>

function resolveCollision_loop ::
  "'h Host \<Rightarrow> 'h \<Rightarrow> nat \<Rightarrow> string \<Rightarrow> string \<Rightarrow> string \<Rightarrow> string \<Rightarrow> nat \<Rightarrow> string" where
  "resolveCollision_loop H h currentFile targetFolder baseName ext finalPath sfx =
     (if sfx < 500
      then (case getAbstractFileByPath H h finalPath of
              None \<Rightarrow> finalPath
            | Some existing \<Rightarrow>
                if abstract_path H h existing = file_path H h currentFile then finalPath
                else resolveCollision_loop H h currentFile targetFolder baseName ext
                       (normalizePath H (targetFolder @ ''/'' @ baseName @ '' ''
                                         @ string_of_nat (sfx + 1) @ ''.'' @ ext))
                       (sfx + 1))
      else file_path H h currentFile)"
  by pat_completeness auto
termination
  by (relation "measure (\<lambda>(H, h, currentFile, targetFolder, baseName, ext, finalPath, sfx).
        500 - sfx)") auto

declare resolveCollision_loop.simps [simp del]

definition resolveCollision :: "'h Host \<Rightarrow> 'h \<Rightarrow> string \<Rightarrow> nat \<Rightarrow> string \<Rightarrow> string \<Rightarrow> string" where
  "resolveCollision H h desiredPath currentFile targetFolder baseName =
     resolveCollision_loop H h currentFile targetFolder baseName
       (file_extension H h currentFile) desiredPath 0"

text \<open>
  Two notions for the statements on \<open>resolveCollision\<close>: the path tried in round \<open>k\<close> of the
  loop (the desired path in round 0, the path with the suffix \<open>k\<close> after that), and the test
  of lines 370-371 that ends the loop.
\<close>

definition collisionCandidate ::
  "'h Host \<Rightarrow> string \<Rightarrow> string \<Rightarrow> string \<Rightarrow> string \<Rightarrow> nat \<Rightarrow> string" where
  "collisionCandidate H desiredPath targetFolder baseName ext k =
     (if k = 0 then desiredPath
      else normalizePath H (targetFolder @ ''/'' @ baseName @ '' '' @ string_of_nat k @ ''.'' @ ext))"

definition unoccupiedOrSelf :: "'h Host \<Rightarrow> 'h \<Rightarrow> nat \<Rightarrow> string \<Rightarrow> bool" where
  "unoccupiedOrSelf H h currentFile p =
     (case getAbstractFileByPath H h p of
        None \<Rightarrow> True
      | Some existing \<Rightarrow> abstract_path H h existing = file_path H h currentFile)"

text \<open>\<^verbatim>\<open>ensureFolderExists\<close> (main.ts, 423-432).\<close>

definition ensureFolderExists :: "'h Host \<Rightarrow> 'h \<Rightarrow> string \<Rightarrow> error + 'h" where
  "ensureFolderExists H h p =
     (if p = [] \<or> p = ''/'' \<or> p = ''.'' then Inr h
      else let normalized = normalizePath H p
           in case getAbstractFileByPath H h normalized of
                Some (TFolder q) \<Rightarrow> Inr h
              | Some (TFile f) \<Rightarrow> Inl (CannotCreateFolder normalized)
              | None \<Rightarrow> createFolder H h normalized)"

section \<open>The pass over one note\<close>

text \<open>\<^verbatim>\<open>AttachmentInfo\<close> (main.ts, 66-70); the field \<^verbatim>\<open>file\<close> is \<open>attFile\<close> here.\<close>

record AttachmentInfo =
  attFile :: nat
  originalPath :: string
  index :: nat

text \<open>
  The wait for the metadata (main.ts, 194-202): the result is the cache, or the error of the
  host, and the state of the host after the waits.
\<close>

function waitForCache ::
  "'h Host \<Rightarrow> 'h \<Rightarrow> nat \<Rightarrow> Cache option \<Rightarrow> nat \<Rightarrow> (error + Cache option) \<times> 'h" where
  "waitForCache H h noteFile cache retries =
     (if cache = None \<and> retries < 10
      then let h' = sleep H h
           in case getFileCache H h' noteFile of
                Inl e \<Rightarrow> (Inl e, h')
              | Inr cache' \<Rightarrow> waitForCache H h' noteFile cache' (retries + 1)
      else (Inr cache, h))"
  by pat_completeness auto
termination
  by (relation "measure (\<lambda>(H, h, noteFile, cache, retries). 10 - retries)") auto

declare waitForCache.simps [simp del]

text \<open>The discovery of the targets (main.ts, 216-231); \<open>i\<close> is the index of the first reference.\<close>

fun gatherTargets ::
  "'h Host \<Rightarrow> 'h \<Rightarrow> nat \<Rightarrow> string list \<Rightarrow> nat \<Rightarrow> error + AttachmentInfo list" where
  "gatherTargets H h noteFile [] i = Inr []"
| "gatherTargets H h noteFile (link # refs) i =
     (let cleanLink = takeWhile (\<lambda>c. c \<noteq> CHR ''^'') (takeWhile (\<lambda>c. c \<noteq> CHR ''#'') link)
      in case getFirstLinkpathDest H h cleanLink (file_path H h noteFile) of
           Inl e \<Rightarrow> Inl e
         | Inr dest \<Rightarrow>
             (case gatherTargets H h noteFile refs (i + 1) of
                Inl e \<Rightarrow> Inl e
              | Inr targets \<Rightarrow>
                  (case dest of
                     None \<Rightarrow> Inr targets
                   | Some attachmentFile \<Rightarrow>
                       if file_extension H h attachmentFile \<noteq> ''md'' \<and>
                          file_path H h attachmentFile \<noteq> file_path H h noteFile
                       then Inr (\<lparr> attFile = attachmentFile,
                                   originalPath = file_path H h attachmentFile,
                                   index = i \<rparr> # targets)
                       else Inr targets)))"

text \<open>The state of the loop over the targets (main.ts, 236-239).\<close>

record 'h LoopState =
  plugin :: "'h Plugin"
  processedPaths :: "string set"
  checkedFolders :: "string set"
  renameCount :: nat

text \<open>Lines 251-256: the patterns and the location mode of a rule, or the defaults.\<close>

definition effectivePatterns ::
  "PluginSettings \<Rightarrow> AttachmentRule option \<Rightarrow> string \<times> string \<times> LocationMode" where
  "effectivePatterns settings rule =
     (case rule of
        Some r \<Rightarrow> (namePattern r, pathPattern r,
                   (case locationMode r of Some m \<Rightarrow> m | None \<Rightarrow> LocPattern))
      | None \<Rightarrow> (defaultNamePattern settings, defaultPathPattern settings, LocPattern))"

text \<open>Lines 258-266: the variables of the template.\<close>

definition templateVariables ::
  "'h Host \<Rightarrow> 'h \<Rightarrow> nat \<Rightarrow> string option \<Rightarrow> AttachmentInfo \<Rightarrow> (string \<rightharpoonup> string)" where
  "templateVariables H h noteFile oldNoteName t =
     [''filename'' \<mapsto> file_basename H h noteFile,
      ''original'' \<mapsto> getCleanOriginalName (file_basename H h (attFile t)) oldNoteName,
      ''extension'' \<mapsto> file_extension H h (attFile t),
      ''date'' \<mapsto> getFormattedDate H h,
      ''index'' \<mapsto> padStart2 (string_of_nat (index t + 1))]"

text \<open>Lines 274-282: the target folder.\<close>

definition targetFolderPath ::
  "'h Host \<Rightarrow> 'h \<Rightarrow> nat \<Rightarrow> AttachmentInfo \<Rightarrow> string \<Rightarrow> LocationMode \<Rightarrow> string" where
  "targetFolderPath H h noteFile t pathPat mode =
     (if mode = LocOriginal
      then (case file_parent H h (attFile t) of Some p \<Rightarrow> p | None \<Rightarrow> ''/'')
      else resolveTargetPath H h pathPat noteFile)"

text \<open>
  The inner \<^verbatim>\<open>try\<close> block (main.ts, 303-318): the state of the host and the checked folders
  after it, and whether the file was renamed. A failure is logged and ends the block.
\<close>

definition tryRename ::
  "'h Host \<Rightarrow> 'h \<Rightarrow> string set \<Rightarrow> string \<Rightarrow> LocationMode \<Rightarrow> nat \<Rightarrow> string \<Rightarrow>
   'h \<times> string set \<times> bool" where
  "tryRename H h checked folder mode attachmentFile finalPath =
     (case (if folder \<notin> checked \<and> mode \<noteq> LocOriginal
            then (case ensureFolderExists H h folder of
                    Inl e \<Rightarrow> Inl e
                  | Inr h' \<Rightarrow> Inr (h', insert folder checked))
            else Inr (h, checked)) of
        Inl e \<Rightarrow> (h, checked, False)
      | Inr (h', checked') \<Rightarrow>
          (case renameFile H h' attachmentFile finalPath of
             Inl e \<Rightarrow> (h', checked', False)
           | Inr h'' \<Rightarrow> (h'', checked', True)))"

text \<open>
  Lines 258-284: the target folder, the new base name and the desired path of a target, for
  the given patterns.
\<close>

definition targetPlan ::
  "'h Host \<Rightarrow> 'h \<Rightarrow> nat \<Rightarrow> string option \<Rightarrow> AttachmentInfo \<Rightarrow> string \<times> string \<times> LocationMode \<Rightarrow>
   string \<times> string \<times> string" where
  "targetPlan H h noteFile oldNoteName t pats =
     (case pats of (namePat, pathPat, mode) \<Rightarrow>
      let base = newBaseName namePat (templateVariables H h noteFile oldNoteName t);
          newFileName = base @ ''.'' @ file_extension H h (attFile t);
          folder = targetFolderPath H h noteFile t pathPat mode
      in (folder, base, normalizePath H (folder @ ''/'' @ newFileName)))"

text \<open>Lines 258-318: the rename of one target with the given patterns.\<close>

definition renameTarget ::
  "'h Host \<Rightarrow> nat \<Rightarrow> string option \<Rightarrow> AttachmentInfo \<Rightarrow> string \<times> string \<times> LocationMode \<Rightarrow>
   'h LoopState \<Rightarrow> 'h LoopState" where
  "renameTarget H noteFile oldNoteName t pats ls =
     (let h = host (plugin ls);
          attachmentFile = attFile t
      in case targetPlan H h noteFile oldNoteName t pats of
           (folder, base, desiredPath) \<Rightarrow>
         if desiredPath = file_path H h attachmentFile
         then ls\<lparr>processedPaths := insert (file_path H h attachmentFile) (processedPaths ls)\<rparr>
         else let finalPath = resolveCollision H h desiredPath attachmentFile folder base
              in if finalPath = file_path H h attachmentFile
                 then ls\<lparr>processedPaths := insert (file_path H h attachmentFile) (processedPaths ls)\<rparr>
                 else (case tryRename H h (checkedFolders ls) folder (snd (snd pats))
                              attachmentFile finalPath of
                         (h', checked, renamed) \<Rightarrow>
                           ls\<lparr>plugin := (plugin ls)\<lparr>host := h'\<rparr>,
                              checkedFolders := checked,
                              processedPaths := (if renamed then insert finalPath (processedPaths ls)
                                                 else processedPaths ls),
                              renameCount := (if renamed then renameCount ls + 1
                                              else renameCount ls)\<rparr>))"

text \<open>Lines 242-256: one round of the loop over the targets.\<close>

definition processTarget ::
  "'h Host \<Rightarrow> PluginSettings \<Rightarrow> nat \<Rightarrow> string option \<Rightarrow> AttachmentInfo \<Rightarrow>
   'h LoopState \<Rightarrow> 'h LoopState" where
  "processTarget H settings noteFile oldNoteName t ls =
     (let h = host (plugin ls);
          attachmentFile = attFile t
      in if file_path H h attachmentFile \<in> processedPaths ls then ls
         else if getAbstractFileByPath H h (file_path H h attachmentFile) = None then ls
         else let rule = getRuleForExtension settings (file_extension H h attachmentFile)
              in if rule = None \<and> length (rules settings) > 0 then ls
                 else renameTarget H noteFile oldNoteName t (effectivePatterns settings rule) ls)"

fun processTargets ::
  "'h Host \<Rightarrow> PluginSettings \<Rightarrow> nat \<Rightarrow> string option \<Rightarrow> AttachmentInfo list \<Rightarrow>
   'h LoopState \<Rightarrow> 'h LoopState" where
  "processTargets H settings noteFile oldNoteName [] ls = ls"
| "processTargets H settings noteFile oldNoteName (t # ts) ls =
     processTargets H settings noteFile oldNoteName ts
       (processTarget H settings noteFile oldNoteName t ls)"

text \<open>
  The body of the \<^verbatim>\<open>try\<close> block of \<^verbatim>\<open>processNoteAttachments\<close> (main.ts, 193-324): the
  count, or the error that was thrown, and the state of the plugin.
\<close>

definition passBody ::
  "'h Host \<Rightarrow> PluginSettings \<Rightarrow> 'h Plugin \<Rightarrow> nat \<Rightarrow> string option \<Rightarrow> (error + nat) \<times> 'h Plugin" where
  "passBody H settings st noteFile oldNoteName =
     (case getFileCache H (host st) noteFile of
        Inl e \<Rightarrow> (Inl e, st)
      | Inr cache0 \<Rightarrow>
          (case waitForCache H (host st) noteFile cache0 0 of
             (Inl e, h) \<Rightarrow> (Inl e, st\<lparr>host := h\<rparr>)
           | (Inr None, h) \<Rightarrow> (Inr 0, st\<lparr>host := h\<rparr>)
           | (Inr (Some cache), h) \<Rightarrow>
               let combinedReferences =
                     (case embeds cache of Some es \<Rightarrow> es | None \<Rightarrow> []) @
                     (case links cache of Some ls \<Rightarrow> ls | None \<Rightarrow> [])
               in if length combinedReferences = 0 then (Inr 0, st\<lparr>host := h\<rparr>)
                  else (case gatherTargets H h noteFile combinedReferences 0 of
                          Inl e \<Rightarrow> (Inl e, st\<lparr>host := h\<rparr>)
                        | Inr targets \<Rightarrow>
                            if length targets = 0 then (Inr 0, st\<lparr>host := h\<rparr>)
                            else let ls = processTargets H settings noteFile oldNoteName targets
                                            \<lparr> plugin = st\<lparr>host := h\<rparr>, processedPaths = {},
                                              checkedFolders = {}, renameCount = 0 \<rparr>
                                 in (Inr (renameCount ls), plugin ls))))"

text \<open>
  \<^verbatim>\<open>processNoteAttachments\<close> (main.ts, 188-332): the guard, the body, the \<^verbatim>\<open>catch\<close> that
  turns an error into the count 0, and the \<^verbatim>\<open>finally\<close> that takes the path of the note, as
  it is then, out of the set.
\<close>

definition processNoteAttachments ::
  "'h Host \<Rightarrow> PluginSettings \<Rightarrow> 'h Plugin \<Rightarrow> nat \<Rightarrow> string option \<Rightarrow> nat \<times> 'h Plugin" where
  "processNoteAttachments H settings st noteFile oldNoteName =
     (if file_path H (host st) noteFile \<in> isProcessing st then (0, st)
      else let st1 = st\<lparr>isProcessing := insert (file_path H (host st) noteFile) (isProcessing st)\<rparr>
           in case passBody H settings st1 noteFile oldNoteName of
                (result, st2) \<Rightarrow>
                  ((case result of Inl e \<Rightarrow> 0 | Inr count \<Rightarrow> count),
                   st2\<lparr>isProcessing := isProcessing st2 - {file_path H (host st2) noteFile}\<rparr>))"

text \<open>
  The condition on the host under which the note keeps its path during a pass: the wait, the
  creation of a folder and the rename of another file leave the path of the note.
\<close>

definition hostKeepsPath :: "'h Host \<Rightarrow> nat \<Rightarrow> bool" where
  "hostKeepsPath H noteFile =
     ((\<forall>h. file_path H (sleep H h) noteFile = file_path H h noteFile) \<and>
      (\<forall>h p h'. createFolder H h p = Inr h' \<longrightarrow> file_path H h' noteFile = file_path H h noteFile) \<and>
      (\<forall>h f p h'. f \<noteq> noteFile \<and> renameFile H h f p = Inr h' \<longrightarrow>
           file_path H h' noteFile = file_path H h noteFile))"


section \<open>A host: a vault in memory\<close>

text \<open>
  Modelled from the spec: the host application, which is not in the repository. This
  instance follows the interface that the specification gives for the collaborators
  (section 6: the lookup of a file or folder by its path, the creation of a folder, the
  rename of a file that rewrites the links to it and may fail, the link index) and the
  host's convention of normalized paths: in \<^verbatim>\<open>normalizePath\<close> runs of slashes and
  backslashes become one slash, slashes at both ends are removed, the empty path is the root
  \<^verbatim>\<open>/\<close>, and a no-break space becomes a space. It serves the examples; the statements on
  the plugin hold for every host, or name what they take from this one.
\<close>

definition is_slash :: "char \<Rightarrow> bool" where
  "is_slash c = (c = CHR ''/'' \<or> c = CHR 0x5C)"

definition collapse_slashes :: "string \<Rightarrow> string" where
  "collapse_slashes p = replace_runs is_slash ''/'' p"

definition strip_slashes :: "string \<Rightarrow> string" where
  "strip_slashes p = rev (dropWhile (\<lambda>c. c = CHR ''/'') (rev (dropWhile (\<lambda>c. c = CHR ''/'') p)))"

definition nbsp_to_space :: "string \<Rightarrow> string" where
  "nbsp_to_space p = map (\<lambda>ch. if ch = CHR 0xA0 then CHR 0x20 else ch) p"

definition obsidianNormalizePath :: "string \<Rightarrow> string" where
  "obsidianNormalizePath p =
     (let b = strip_slashes (collapse_slashes p)
      in nbsp_to_space (if b = [] then ''/'' else b))"

text \<open>The parts of a path: the name behind the last slash, the folder before it.\<close>

definition path_name :: "string \<Rightarrow> string" where
  "path_name p = rev (takeWhile (\<lambda>c. c \<noteq> CHR ''/'') (rev p))"

definition path_parent :: "string \<Rightarrow> string" where
  "path_parent p =
     (let d = rev (drop 1 (dropWhile (\<lambda>c. c \<noteq> CHR ''/'') (rev p)))
      in if d = [] then ''/'' else d)"

definition path_extension :: "string \<Rightarrow> string" where
  "path_extension p =
     (let n = path_name p
      in if CHR ''.'' \<in> set n then rev (takeWhile (\<lambda>c. c \<noteq> CHR ''.'') (rev n)) else [])"

definition path_basename :: "string \<Rightarrow> string" where
  "path_basename p =
     (let n = path_name p
      in if CHR ''.'' \<in> set n then rev (drop 1 (dropWhile (\<lambda>c. c \<noteq> CHR ''.'') (rev n))) else n)"

text \<open>
  The vault: the path of every file object, the folders, the metadata of the notes (a link
  text is the path of its file, with an optional fragment) and the date.
\<close>

record Vault =
  vault_files :: "(nat \<times> string) list"
  vault_folders :: "string list"
  vault_cache :: "(nat \<times> Cache) list"
  vault_today :: "nat \<times> nat \<times> nat"

definition vault_file_at :: "Vault \<Rightarrow> string \<Rightarrow> nat option" where
  "vault_file_at v p = map_option fst (find (\<lambda>e. snd e = p) (vault_files v))"

definition vault_lookup :: "Vault \<Rightarrow> string \<Rightarrow> TAbstractFile option" where
  "vault_lookup v p =
     (case vault_file_at v p of
        Some f \<Rightarrow> Some (TFile f)
      | None \<Rightarrow> if p \<in> set (vault_folders v) then Some (TFolder p) else None)"

definition vault_path :: "Vault \<Rightarrow> nat \<Rightarrow> string" where
  "vault_path v f = (case map_of (vault_files v) f of Some p \<Rightarrow> p | None \<Rightarrow> [])"

text \<open>A rename rewrites the links to the file, as the host's rename of a file does.\<close>

definition relink :: "string \<Rightarrow> string \<Rightarrow> string \<Rightarrow> string" where
  "relink oldPath newPath link =
     (if takeWhile (\<lambda>c. c \<noteq> CHR ''#'') link = oldPath
      then newPath @ dropWhile (\<lambda>c. c \<noteq> CHR ''#'') link else link)"

definition relink_cache :: "string \<Rightarrow> string \<Rightarrow> Cache \<Rightarrow> Cache" where
  "relink_cache oldPath newPath c =
     \<lparr> embeds = map_option (map (relink oldPath newPath)) (embeds c),
       links = map_option (map (relink oldPath newPath)) (links c) \<rparr>"

definition vault_rename :: "Vault \<Rightarrow> nat \<Rightarrow> string \<Rightarrow> error + Vault" where
  "vault_rename v f newPath =
     (if map_of (vault_files v) f = None \<or> vault_lookup v newPath \<noteq> None \<or>
         (path_parent newPath \<noteq> ''/'' \<and> path_parent newPath \<notin> set (vault_folders v))
      then Inl HostError
      else Inr (v\<lparr> vault_files := map (\<lambda>e. if fst e = f then (f, newPath) else e) (vault_files v),
                  vault_cache := map (\<lambda>e. (fst e, relink_cache (vault_path v f) newPath (snd e)))
                                     (vault_cache v) \<rparr>))"

definition vault_createFolder :: "Vault \<Rightarrow> string \<Rightarrow> error + Vault" where
  "vault_createFolder v p =
     (if vault_lookup v p \<noteq> None then Inl HostError
      else Inr (v\<lparr> vault_folders := p # vault_folders v \<rparr>))"

definition vault_host :: "Vault Host" where
  "vault_host =
     \<lparr> getFileCache = (\<lambda>v noteFile. Inr (map_of (vault_cache v) noteFile)),
       getFirstLinkpathDest = (\<lambda>v link sourcePath. Inr (vault_file_at v link)),
       getAbstractFileByPath = vault_lookup,
       renameFile = vault_rename,
       createFolder = vault_createFolder,
       sleep = (\<lambda>v. v),
       normalizePath = obsidianNormalizePath,
       file_path = vault_path,
       file_basename = (\<lambda>v f. path_basename (vault_path v f)),
       file_extension = (\<lambda>v f. path_extension (vault_path v f)),
       file_parent = (\<lambda>v f. Some (path_parent (vault_path v f))),
       now = vault_today \<rparr>"

text \<open>
  An example: the note \<^verbatim>\<open>Note.md\<close> (file 0) embeds the picture \<^verbatim>\<open>pic.png\<close> (file 1),
  both in the root of the vault.
\<close>

definition example_vault :: Vault where
  "example_vault =
     \<lparr> vault_files = [(0, ''Note.md''), (1, ''pic.png'')],
       vault_folders = [],
       vault_cache = [(0, \<lparr> embeds = Some [''pic.png''], links = Some [] \<rparr>)],
       vault_today = (2026, 0, 15) \<rparr>"

definition example_plugin :: "Vault Plugin" where
  "example_plugin = \<lparr> host = example_vault, isProcessing = {} \<rparr>"

text \<open>
  A vault where the names \<^verbatim>\<open>pic.png\<close> and \<^verbatim>\<open>pic 1.png\<close> are taken, and a host where
  every path is taken by a folder.
\<close>

definition busy_vault :: Vault where
  "busy_vault =
     \<lparr> vault_files = [(0, ''Note.md''), (1, ''draft.png''), (2, ''pic.png''), (3, ''pic 1.png'')],
       vault_folders = [],
       vault_cache = [(0, \<lparr> embeds = Some [''draft.png''], links = Some [] \<rparr>)],
       vault_today = (2026, 0, 15) \<rparr>"

definition crowded_host :: "Vault Host" where
  "crowded_host = vault_host\<lparr> getAbstractFileByPath := (\<lambda>v p. Some (TFolder p)),
                              normalizePath := (\<lambda>p. p) \<rparr>"

text \<open>
  A note that links a text file, for which the default settings have no rule; and a host
  whose metadata cache throws.
\<close>

definition text_vault :: Vault where
  "text_vault =
     \<lparr> vault_files = [(0, ''Note.md''), (1, ''notes.txt'')],
       vault_folders = [],
       vault_cache = [(0, \<lparr> embeds = Some [], links = Some [''notes.txt''] \<rparr>)],
       vault_today = (2026, 0, 15) \<rparr>"

definition failing_host :: "Vault Host" where
  "failing_host = vault_host\<lparr> getFileCache := (\<lambda>v noteFile. Inl HostError) \<rparr>"

text \<open>
  A path of a folder as the host gives it: the root, or a non-empty path without
  backslash and no-break space, without a slash at an end and without two slashes in a row;
  and a part of a file name: without slash, backslash and no-break space.
\<close>

fun no_double_slash :: "string \<Rightarrow> bool" where
  "no_double_slash [] = True"
| "no_double_slash [c] = True"
| "no_double_slash (c # d # s) = (\<not> (c = CHR ''/'' \<and> d = CHR ''/'') \<and> no_double_slash (d # s))"

definition cleanFolder :: "string \<Rightarrow> bool" where
  "cleanFolder p =
     (p = ''/'' \<or>
      (p \<noteq> [] \<and> hd p \<noteq> CHR ''/'' \<and> last p \<noteq> CHR ''/'' \<and> no_double_slash p \<and>
       CHR 0x5C \<notin> set p \<and> CHR 0xA0 \<notin> set p))"

definition cleanPart :: "string \<Rightarrow> bool" where
  "cleanPart n = list_all (\<lambda>c. \<not> is_slash c \<and> c \<noteq> CHR 0xA0) n"

text \<open>
  A vault with folders: the picture of the note is in \<^verbatim>\<open>Docs/img\<close>, where the name
  \<^verbatim>\<open>Note pic.png\<close> is taken; and settings whose rule for pictures leaves the folder.
\<close>

definition folder_vault :: Vault where
  "folder_vault =
     \<lparr> vault_files = [(0, ''Docs/Note.md''), (1, ''Docs/img/pic.png''),
                      (2, ''Docs/img/Note pic.png'')],
       vault_folders = [''Docs'', ''Docs/img''],
       vault_cache = [(0, \<lparr> embeds = Some [''Docs/img/pic.png''], links = Some [] \<rparr>)],
       vault_today = (2026, 0, 15) \<rparr>"

definition original_settings :: PluginSettings where
  "original_settings =
     DEFAULT_SETTINGS\<lparr> rules :=
       [\<lparr> rule_id = ''images'', label = ''Images'', extensions = [''png''],
           namePattern = ''${filename} ${original}'', pathPattern = ''./assets'',
           locationMode = Some LocOriginal \<rparr>] \<rparr>"


text \<open>
  A vault whose note has no metadata yet, and a host where the note is renamed to
  \<^verbatim>\<open>Renamed.md\<close> while the plugin waits for the metadata (the user renames it).
\<close>

definition uncached_vault :: Vault where
  "uncached_vault =
     \<lparr> vault_files = [(0, ''Note.md''), (1, ''pic.png'')],
       vault_folders = [],
       vault_cache = [],
       vault_today = (2026, 0, 15) \<rparr>"

definition renaming_host :: "Vault Host" where
  "renaming_host =
     vault_host\<lparr> sleep := (\<lambda>v. case vault_rename v 0 ''Renamed.md'' of
                                   Inl e \<Rightarrow> v | Inr v' \<Rightarrow> v') \<rparr>"
section \<open>The debounced trigger\<close>

text \<open>
  Modelled from the spec: the host's \<^verbatim>\<open>debounce(cb, timeout, resetTimer)\<close>, which is not
  in the repository (section 4.6: a deferred invocation per note, whose pending timer a new
  call refreshes). A debounced function keeps the arguments of its last call and at most one
  pending timer, here the time at which the timer fires; a call while the timer is pending
  moves the timer when \<^verbatim>\<open>resetTimer\<close> is set, as line 157 sets it. The arguments are the
  file of the note and its old name.
\<close>

record Debouncer =
  timeout :: nat
  resetTimer :: bool
  timer :: "nat option"
  lastArgs :: "(nat \<times> string) option"

definition callDebouncer :: "nat \<Rightarrow> nat \<times> string \<Rightarrow> Debouncer \<Rightarrow> Debouncer" where
  "callDebouncer currentTime a d =
     d\<lparr> lastArgs := Some a,
        timer := (case timer d of
                    None \<Rightarrow> Some (currentTime + timeout d)
                  | Some t \<Rightarrow> if resetTimer d then Some (currentTime + timeout d) else Some t) \<rparr>"

text \<open>
  The state of the plugin with its debouncers (main.ts, 76-79): the debounced functions
  that were created, the map from the path of a note to its debounced function, the time in
  milliseconds, and the passes that the deferred calls have started.
\<close>

record 'h Scheduler =
  pluginState :: "'h Plugin"
  clock :: nat
  objects :: "Debouncer list"
  debouncers :: "string \<rightharpoonup> nat"
  passes :: "(nat \<times> string option) list"

text \<open>\<^verbatim>\<open>getFileNameFromPath\<close> (main.ts, 141-145).\<close>

definition getFileNameFromPath :: "string \<Rightarrow> string" where
  "getFileNameFromPath p =
     (let fileNameWithExt = rev (takeWhile (\<lambda>c. c \<noteq> CHR ''/'') (rev p))
      in if suffix ''.md'' fileNameWithExt
         then take (length fileNameWithExt - 3) fileNameWithExt else fileNameWithExt)"

text \<open>\<^verbatim>\<open>triggerDebouncedProcessing\<close> (main.ts, 147-163).\<close>

definition triggerDebouncedProcessing ::
  "'h Host \<Rightarrow> PluginSettings \<Rightarrow> 'h Scheduler \<Rightarrow> nat \<Rightarrow> string \<Rightarrow> 'h Scheduler" where
  "triggerDebouncedProcessing H settings s noteFile oldNoteName =
     (let key = file_path H (host (pluginState s)) noteFile
      in case (case debouncers s key of
                 Some i \<Rightarrow> (s, i)
               | None \<Rightarrow>
                   (s\<lparr> objects := objects s @ [\<lparr> timeout = debounceDelay settings, resetTimer = True,
                                                 timer = None, lastArgs = None \<rparr>],
                       debouncers := (debouncers s)(key \<mapsto> length (objects s)) \<rparr>,
                    length (objects s))) of
           (s1, i) \<Rightarrow>
             s1\<lparr> objects := (objects s1)[i := callDebouncer (clock s1) (noteFile, oldNoteName)
                                                (objects s1 ! i)] \<rparr>)"

text \<open>
  The deferred call (main.ts, 152-155), when the timer of the debounced function \<open>i\<close> fires: the
  pass is started with the last arguments, and the entry of the path that the file has at
  that moment is deleted from the map.
\<close>

definition fireDebouncer ::
  "'h Host \<Rightarrow> PluginSettings \<Rightarrow> 'h Scheduler \<Rightarrow> nat \<Rightarrow> 'h Scheduler" where
  "fireDebouncer H settings s i =
     (let d = objects s ! i;
          s1 = s\<lparr> objects := (objects s)[i := d\<lparr> timer := None, lastArgs := None \<rparr>] \<rparr>
      in case lastArgs d of
           None \<Rightarrow> s1
         | Some (f, oldName) \<Rightarrow>
             (case processNoteAttachments H settings (pluginState s1) f (Some oldName) of
                (count, st) \<Rightarrow>
                  s1\<lparr> pluginState := st,
                      passes := passes s1 @ [(f, Some oldName)],
                      debouncers := (debouncers s1)(file_path H (host (pluginState s1)) f := None) \<rparr>))"

text \<open>The timers that are due at the time of the clock fire.\<close>

definition fireDue :: "'h Host \<Rightarrow> PluginSettings \<Rightarrow> 'h Scheduler \<Rightarrow> 'h Scheduler" where
  "fireDue H settings s =
     foldl (\<lambda>s' i. case timer (objects s' ! i) of
                     Some t \<Rightarrow> if t \<le> clock s' then fireDebouncer H settings s' i else s'
                   | None \<Rightarrow> s')
           s [0..<length (objects s)]"

text \<open>The handler of the rename event of the host (main.ts, 118-127).\<close>

definition onRename ::
  "'h Host \<Rightarrow> PluginSettings \<Rightarrow> 'h Scheduler \<Rightarrow> nat \<Rightarrow> string \<Rightarrow> 'h Scheduler" where
  "onRename H settings s f oldPath =
     (if \<not> enableAutoRename settings then s
      else if file_extension H (host (pluginState s)) f = ''md''
           then (if isScopeValid H settings (file_path H (host (pluginState s)) f)
                 then triggerDebouncedProcessing H settings s f (getFileNameFromPath oldPath)
                 else s)
           else s)"

text \<open>
  Modelled from the spec: the events of the host, which is not in the repository. A
  millisecond passes, and the timers that are due fire; or the host renames the file \<open>f\<close>
  to a new path (the user renames or moves it) and then reports the rename to the handler,
  with the file, which has the new path by then, and the old path. A rename that the host
  refuses is no event.
\<close>

datatype event = Tick | Rename nat string

fun step :: "'h Host \<Rightarrow> PluginSettings \<Rightarrow> 'h Scheduler \<Rightarrow> event \<Rightarrow> 'h Scheduler" where
  "step H settings s Tick = fireDue H settings (s\<lparr> clock := clock s + 1 \<rparr>)"
| "step H settings s (Rename f newPath) =
     (let oldPath = file_path H (host (pluginState s)) f
      in case renameFile H (host (pluginState s)) f newPath of
           Inl e \<Rightarrow> s
         | Inr h \<Rightarrow> onRename H settings (s\<lparr> pluginState := (pluginState s)\<lparr> host := h \<rparr> \<rparr>)
                      f oldPath)"

definition run :: "'h Host \<Rightarrow> PluginSettings \<Rightarrow> 'h Scheduler \<Rightarrow> event list \<Rightarrow> 'h Scheduler" where
  "run H settings s evs = foldl (step H settings) s evs"

definition pendingTimers :: "'h Scheduler \<Rightarrow> nat" where
  "pendingTimers s = length (filter (\<lambda>d. timer d \<noteq> None) (objects s))"

text \<open>
  What the statements read from a state: the timers of the debounced functions, in the order
  of their creation, the entries of the map for the given paths, and the passes started.
\<close>

definition observe ::
  "'h Scheduler \<Rightarrow> string list \<Rightarrow> nat option list \<times> nat option list \<times> (nat \<times> string option) list" where
  "observe s paths = (map timer (objects s), map (debouncers s) paths, passes s)"

text \<open>A plugin that has just been loaded, on the example vault, with a delay of 5 ms.\<close>

definition fresh_scheduler :: "Vault Scheduler" where
  "fresh_scheduler =
     \<lparr> pluginState = example_plugin, clock = 0, objects = [], debouncers = Map.empty,
       passes = [] \<rparr>"

definition quick_settings :: PluginSettings where
  "quick_settings = DEFAULT_SETTINGS\<lparr> debounceDelay := 5 \<rparr>"

text \<open>
  The events of an example: the note is renamed to \<^verbatim>\<open>A.md\<close> and, one millisecond later, to
  \<^verbatim>\<open>B.md\<close>; four more milliseconds pass, so that the timer of the first rename fires; then
  the note is renamed to \<^verbatim>\<open>C.md\<close> and back to \<^verbatim>\<open>B.md\<close>.
\<close>

definition two_renames :: "event list" where
  "two_renames = [Rename 0 ''A.md'', Tick, Rename 0 ''B.md'']"

definition first_timer_fired :: "event list" where
  "first_timer_fired = two_renames @ [Tick, Tick, Tick, Tick]"

definition renamed_back :: "event list" where
  "renamed_back = first_timer_fired @ [Rename 0 ''C.md'', Rename 0 ''B.md'']"
section \<open>Lemmas on runs\<close>

lemma concat_maximal_runs: "concat (maximal_runs P s) = s"
  by (induction P s rule: maximal_runs.induct) simp_all

lemma maximal_runs_nonempty: "b \<in> set (maximal_runs P s) \<Longrightarrow> b \<noteq> []"
  by (induction P s rule: maximal_runs.induct) auto

lemma maximal_runs_uniform:
  "b \<in> set (maximal_runs P s) \<Longrightarrow> d \<in> set b \<Longrightarrow> P d = P (hd b)"
  by (induction P s rule: maximal_runs.induct) (auto dest: set_takeWhileD)

lemma maximal_runs_alternate:
  "maximal_runs P s = b # b' # bs \<Longrightarrow> P (hd b') \<noteq> P (hd b)"
proof (cases s)
  case Nil
  assume "maximal_runs P s = b # b' # bs"
  with Nil show ?thesis by simp
next
  case (Cons c t)
  assume m: "maximal_runs P s = b # b' # bs"
  let ?Q = "\<lambda>d. P d = P c"
  from m Cons have b: "b = c # takeWhile ?Q t" and r: "maximal_runs P (dropWhile ?Q t) = b' # bs"
    by simp_all
  from r obtain e u where du: "dropWhile ?Q t = e # u"
    by (cases "dropWhile ?Q t") auto
  with r have "hd b' = e" by auto
  moreover from du have "\<not> ?Q e"
    by (simp add: dropWhile_eq_Cons_conv)
  ultimately show ?thesis using b by simp
qed

lemma replace_runs_skip:
  "replace_runs P r s =
     takeWhile (\<lambda>d. \<not> P d) s @ replace_runs P r (dropWhile (\<lambda>d. \<not> P d) s)"
  by (induction s) simp_all

lemma replace_runs_is_collapse: "replace_runs P r s = collapse_runs_spec P r s"
proof (induction P s rule: maximal_runs.induct)
  case (1 P)
  show ?case by (simp add: collapse_runs_spec_def)
next
  case (2 P c s)
  show ?case
  proof (cases "P c")
    case True
    then have "(\<lambda>d. P d = P c) = P" by auto
    with True 2 show ?thesis by (simp add: collapse_runs_spec_def)
  next
    case False
    then have q: "(\<lambda>d. P d = P c) = (\<lambda>d. \<not> P d)" by auto
    have "replace_runs P r (c # s) = c # replace_runs P r s" using False by simp
    also have "\<dots> = c # takeWhile (\<lambda>d. \<not> P d) s @ replace_runs P r (dropWhile (\<lambda>d. \<not> P d) s)"
      using replace_runs_skip [of P r s] by simp
    finally show ?thesis using False 2 q by (simp add: collapse_runs_spec_def)
  qed
qed

lemma dropWhile_all: "\<forall>x\<in>set xs. P x \<Longrightarrow> dropWhile P xs = []"
  by simp

lemma replace_runs_all:
  "s \<noteq> [] \<Longrightarrow> list_all P s \<Longrightarrow> replace_runs P r s = r"
  by (cases s) (simp_all add: list_all_iff dropWhile_all)

lemma trim_all_space: "list_all is_space s \<Longrightarrow> trim s = []"
  by (simp add: trim_def list_all_iff dropWhile_all)

section \<open>Lemmas on template expansion\<close>

lemma get_substitution_plain:
  "CHR ''$'' \<notin> set r \<Longrightarrow> get_substitution m b a r = r"
  by (induction m b a r rule: get_substitution.induct) auto

lemma replace_all_from_text:
  "tok \<noteq> [] \<Longrightarrow> hd tok = CHR ''$'' \<Longrightarrow> CHR ''$'' \<notin> set t \<Longrightarrow>
   replace_all_from tok r pre (t @ s) = t @ replace_all_from tok r (pre @ t) s"
proof (induction t arbitrary: pre)
  case Nil
  show ?case by simp
next
  case (Cons c t)
  from Cons.prems have "\<not> prefix tok (c # t @ s)"
    by (cases tok) auto
  with Cons show ?case by simp
qed

lemma replace_all_from_token:
  "tok \<noteq> [] \<Longrightarrow>
   replace_all_from tok r pre (tok @ s) =
     get_substitution tok pre s r @ replace_all_from tok r (pre @ tok) s"
  by (cases tok) simp_all

lemma prefix_closing_brace:
  "a \<notin> set xs \<Longrightarrow> a \<notin> set ys \<Longrightarrow> prefix (xs @ [a]) (ys @ a # zs) \<Longrightarrow> xs = ys"
proof (induction xs arbitrary: ys)
  case Nil
  then show ?case by (cases ys) auto
next
  case (Cons x xs)
  then show ?case by (cases ys) auto
qed

lemma replace_all_from_other_token:
  assumes n: "CHR ''$'' \<notin> set n" "CHR ''}'' \<notin> set n"
    and m: "CHR ''$'' \<notin> set m" "CHR ''}'' \<notin> set m"
    and ne: "n \<noteq> m"
  shows "replace_all_from (''${'' @ n @ ''}'') r pre ((''${'' @ m @ ''}'') @ s) =
           (''${'' @ m @ ''}'') @ replace_all_from (''${'' @ n @ ''}'') r (pre @ (''${'' @ m @ ''}'')) s"
proof -
  let ?tok = "''${'' @ n @ ''}''"
  have np: "\<not> prefix ?tok ((''${'' @ m @ ''}'') @ s)"
  proof
    assume "prefix ?tok ((''${'' @ m @ ''}'') @ s)"
    then have "prefix (n @ [CHR ''}'']) (m @ CHR ''}'' # s)" by simp
    with n m have "n = m" by (intro prefix_closing_brace [of "CHR ''}''" n m s]) auto
    with ne show False by simp
  qed
  have t: "CHR ''$'' \<notin> set (''{'' @ m @ ''}'')" using m by simp
  have "replace_all_from ?tok r pre ((''${'' @ m @ ''}'') @ s) =
          CHR ''$'' # replace_all_from ?tok r (pre @ ''$'') ((''{'' @ m @ ''}'') @ s)"
    using np by simp
  also have "\<dots> = CHR ''$'' # (''{'' @ m @ ''}'') @
                    replace_all_from ?tok r ((pre @ ''$'') @ (''{'' @ m @ ''}'')) s"
    using replace_all_from_text [OF _ _ t, of ?tok r "pre @ ''$''" s] by simp
  finally show ?thesis by simp
qed

lemma name_of_plain: "CHR ''$'' \<notin> set (name_of v) \<and> CHR ''}'' \<notin> set (name_of v)"
  by (cases v) simp_all

lemma name_of_inj: "name_of v = name_of w \<Longrightarrow> v = w"
  by (cases v; cases w) simp_all

lemma name_of_known:
  "name_of v \<in> set [''filename'', ''original'', ''extension'', ''date'', ''index'']"
  by (cases v) simp_all

lemma pass_segment:
  assumes ok: "segment_ok seg" and r: "CHR ''$'' \<notin> set r"
  shows "replace_all_from (''${'' @ name_of v @ ''}'') r pre (render seg @ s) =
           render (substitute_var v r seg) @
           replace_all_from (''${'' @ name_of v @ ''}'') r (pre @ render seg) s"
proof (cases seg)
  case (Text t)
  with ok show ?thesis
    using replace_all_from_text [of "''${'' @ name_of v @ ''}''" t r pre s] by simp
next
  case (Placeholder w)
  show ?thesis
  proof (cases "w = v")
    case True
    with Placeholder r show ?thesis
      using replace_all_from_token [of "''${'' @ name_of v @ ''}''" r pre s]
      by (simp add: get_substitution_plain)
  next
    case False
    then have "name_of v \<noteq> name_of w" using name_of_inj by blast
    with Placeholder False show ?thesis
      using replace_all_from_other_token [of "name_of v" "name_of w" r pre s] name_of_plain
      by simp
  qed
next
  case (Unknown m)
  with ok have "name_of v \<noteq> m" using name_of_known [of v] by auto
  with Unknown ok show ?thesis
    using replace_all_from_other_token [of "name_of v" m r pre s] name_of_plain by simp
qed

lemma substitute_var_ok:
  "segment_ok seg \<Longrightarrow> CHR ''$'' \<notin> set r \<Longrightarrow> segment_ok (substitute_var v r seg)"
  by (cases seg) simp_all

lemma pass_segments_from:
  "\<forall>seg\<in>set segs. segment_ok seg \<Longrightarrow> CHR ''$'' \<notin> set r \<Longrightarrow>
   replace_all_from (''${'' @ name_of v @ ''}'') r pre (concat (map render segs)) =
     concat (map render (map (substitute_var v r) segs))"
proof (induction segs arbitrary: pre)
  case Nil
  show ?case by simp
next
  case (Cons seg segs)
  then have "replace_all_from (''${'' @ name_of v @ ''}'') r pre (render seg @ concat (map render segs)) =
               render (substitute_var v r seg) @
               replace_all_from (''${'' @ name_of v @ ''}'') r (pre @ render seg) (concat (map render segs))"
    using pass_segment [of seg r v pre "concat (map render segs)"] by simp
  with Cons show ?case by simp
qed

lemma pass_segments:
  "\<forall>seg\<in>set segs. segment_ok seg \<Longrightarrow> CHR ''$'' \<notin> set r \<Longrightarrow>
   replace_all (''${'' @ name_of v @ ''}'') r (concat (map render segs)) =
     concat (map render (map (substitute_var v r) segs))"
  unfolding replace_all_def by (rule pass_segments_from)

lemma pass_segments_ok:
  "\<forall>seg\<in>set segs. segment_ok seg \<Longrightarrow> CHR ''$'' \<notin> set r \<Longrightarrow>
   \<forall>seg\<in>set (map (substitute_var v r) segs). segment_ok seg"
  by (simp add: substitute_var_ok)

lemma all_passes_segment:
  "render (substitute_var Index (value_of vars Index)
     (substitute_var Date (value_of vars Date)
       (substitute_var Extension (value_of vars Extension)
         (substitute_var Original (value_of vars Original)
           (substitute_var Filename (value_of vars Filename) seg))))) = expand_segment vars seg"
proof (cases seg)
  case (Placeholder v)
  then show ?thesis by (cases v) simp_all
qed simp_all

lemma applyVariables_passes:
  "applyVariables pattern vars =
     replace_all (''${'' @ name_of Index @ ''}'') (value_of vars Index)
      (replace_all (''${'' @ name_of Date @ ''}'') (value_of vars Date)
       (replace_all (''${'' @ name_of Extension @ ''}'') (value_of vars Extension)
        (replace_all (''${'' @ name_of Original @ ''}'') (value_of vars Original)
         (replace_all (''${'' @ name_of Filename @ ''}'') (value_of vars Filename) pattern))))"
  by (simp add: applyVariables_def value_of_def)

lemma applyVariables_segments:
  assumes ok: "\<forall>seg\<in>set segs. segment_ok seg"
    and plain: "\<forall>v. CHR ''$'' \<notin> set (value_of vars v)"
  shows "applyVariables (concat (map render segs)) vars = expand_single_pass_spec segs vars"
proof -
  let ?s1 = "map (substitute_var Filename (value_of vars Filename)) segs"
  let ?s2 = "map (substitute_var Original (value_of vars Original)) ?s1"
  let ?s3 = "map (substitute_var Extension (value_of vars Extension)) ?s2"
  let ?s4 = "map (substitute_var Date (value_of vars Date)) ?s3"
  let ?s5 = "map (substitute_var Index (value_of vars Index)) ?s4"
  from plain have pv: "\<And>v. CHR ''$'' \<notin> set (value_of vars v)" by blast
  have ok1: "\<forall>seg\<in>set ?s1. segment_ok seg" by (rule pass_segments_ok [OF ok pv])
  have ok2: "\<forall>seg\<in>set ?s2. segment_ok seg" by (rule pass_segments_ok [OF ok1 pv])
  have ok3: "\<forall>seg\<in>set ?s3. segment_ok seg" by (rule pass_segments_ok [OF ok2 pv])
  have ok4: "\<forall>seg\<in>set ?s4. segment_ok seg" by (rule pass_segments_ok [OF ok3 pv])
  have p1: "replace_all (''${'' @ name_of Filename @ ''}'') (value_of vars Filename)
              (concat (map render segs)) = concat (map render ?s1)"
    by (rule pass_segments [OF ok pv])
  have p2: "replace_all (''${'' @ name_of Original @ ''}'') (value_of vars Original)
              (concat (map render ?s1)) = concat (map render ?s2)"
    by (rule pass_segments [OF ok1 pv])
  have p3: "replace_all (''${'' @ name_of Extension @ ''}'') (value_of vars Extension)
              (concat (map render ?s2)) = concat (map render ?s3)"
    by (rule pass_segments [OF ok2 pv])
  have p4: "replace_all (''${'' @ name_of Date @ ''}'') (value_of vars Date)
              (concat (map render ?s3)) = concat (map render ?s4)"
    by (rule pass_segments [OF ok3 pv])
  have p5: "replace_all (''${'' @ name_of Index @ ''}'') (value_of vars Index)
              (concat (map render ?s4)) = concat (map render ?s5)"
    by (rule pass_segments [OF ok4 pv])
  have "applyVariables (concat (map render segs)) vars = concat (map render ?s5)"
    unfolding applyVariables_passes p1 p2 p3 p4 p5 ..
  also have "\<dots> = concat (map (expand_segment vars) segs)"
    by (induction segs) (simp_all add: all_passes_segment del: substitute_var.simps)
  finally show ?thesis by (simp add: expand_single_pass_spec_def)
qed

section \<open>Lemmas on stripping the old note name\<close>

lemma includes_str_iff: "includes_str s t \<longleftrightarrow> (\<exists>u v. s = u @ t @ v)"
proof (induction s)
  case Nil
  show ?case by auto
next
  case (Cons c s)
  show ?case
  proof
    assume "includes_str (c # s) t"
    then consider "prefix t (c # s)" | "includes_str s t" by auto
    then show "\<exists>u v. c # s = u @ t @ v"
    proof cases
      case 1
      then obtain v where "c # s = t @ v" by (auto simp: prefix_def)
      then have "c # s = [] @ t @ v" by simp
      then show ?thesis by blast
    next
      case 2
      with Cons obtain u v where "s = u @ t @ v" by blast
      then have "c # s = (c # u) @ t @ v" by simp
      then show ?thesis by blast
    qed
  next
    assume "\<exists>u v. c # s = u @ t @ v"
    then obtain u v where uv: "c # s = u @ t @ v" by blast
    show "includes_str (c # s) t"
    proof (cases u)
      case Nil
      with uv have "prefix t (c # s)" by (simp add: prefix_def)
      then show ?thesis by simp
    next
      case (Cons d u')
      with uv have "s = u' @ t @ v" by simp
      with Cons.IH have "includes_str s t" by blast
      then show ?thesis by simp
    qed
  qed
qed

lemma includes_str_prefix: "prefix t s \<Longrightarrow> includes_str s t"
  by (cases s) simp_all

lemma match_padded_SomeD:
  "match_padded old x = Some r \<Longrightarrow>
   \<exists>k. list_all is_sep (take k x) \<and> prefix old (drop k x) \<and>
       r = dropWhile is_sep (drop (k + length old) x)"
proof (induction x arbitrary: r)
  case Nil
  then have "list_all is_sep (take 0 []) \<and> prefix old (drop 0 []) \<and>
       r = dropWhile is_sep (drop (0 + length old) [])"
    by (simp split: if_splits)
  then show ?case by blast
next
  case (Cons c s)
  show ?case
  proof (cases "is_sep c \<and> match_padded old s \<noteq> None")
    case True
    then obtain r' where r': "match_padded old s = Some r'" by auto
    with True Cons.prems have rr: "r = r'" by simp
    from Cons.IH [OF r'] obtain k where
      "list_all is_sep (take k s) \<and> prefix old (drop k s) \<and>
       r' = dropWhile is_sep (drop (k + length old) s)" by blast
    with True rr have "list_all is_sep (take (Suc k) (c # s)) \<and> prefix old (drop (Suc k) (c # s)) \<and>
       r = dropWhile is_sep (drop (Suc k + length old) (c # s))" by simp
    then show ?thesis by blast
  next
    case False
    with Cons.prems have "prefix old (c # s) \<and> r = dropWhile is_sep (drop (length old) (c # s))"
      by (auto split: option.splits if_splits)
    then have "list_all is_sep (take 0 (c # s)) \<and> prefix old (drop 0 (c # s)) \<and>
       r = dropWhile is_sep (drop (0 + length old) (c # s))" by simp
    then show ?thesis by blast
  qed
qed

lemma dropWhile_drop_within:
  "list_all P (take n x) \<Longrightarrow> m \<le> n \<Longrightarrow> dropWhile P (drop m x) = dropWhile P x"
proof (induction x arbitrary: m n)
  case Nil
  show ?case by simp
next
  case (Cons c x)
  show ?case
  proof (cases m)
    case 0
    then show ?thesis by simp
  next
    case (Suc m')
    with Cons.prems obtain n' where n: "n = Suc n'" by (cases n) auto
    with Cons.prems Suc have "P c" "list_all P (take n' x)" "m' \<le> n'" by simp_all
    with Cons.IH [of n' m'] Suc show ?thesis by simp
  qed
qed

lemma prefix_nth: "prefix a b \<Longrightarrow> i < length a \<Longrightarrow> b ! i = a ! i"
  by (auto simp: prefix_def nth_append)

lemma periodic_seps:
  assumes p0: "prefix old x" and pk: "prefix old (drop k x)"
    and seps: "list_all is_sep (take k x)" and k: "0 < k"
  shows "list_all is_sep old"
proof -
  from p0 have len: "length old \<le> length x" by (rule prefix_length_le)
  have "i < length old \<Longrightarrow> is_sep (old ! i)" for i
  proof (induction i rule: less_induct)
    case (less i)
    show ?case
    proof (cases "i < k")
      case True
      with seps less.prems len have "is_sep (x ! i)" by (simp add: list_all_length)
      with p0 less.prems show ?thesis by (simp add: prefix_nth)
    next
      case False
      with k have a: "i - k < i" by simp
      with less.prems have b: "i - k < length old" by simp
      from less.IH [OF a b] have "is_sep (old ! (i - k))" .
      moreover from pk b have "drop k x ! (i - k) = old ! (i - k)" by (rule prefix_nth)
      moreover from False less.prems len have "drop k x ! (i - k) = x ! i" by simp
      moreover from p0 less.prems have "x ! i = old ! i" by (rule prefix_nth)
      ultimately show ?thesis by simp
    qed
  qed
  then show ?thesis by (simp add: list_all_length)
qed

lemma alignment_rest:
  assumes p0: "prefix old x" and seps: "list_all is_sep (take k x)"
    and pk: "prefix old (drop k x)"
  shows "dropWhile is_sep (drop (k + length old) x) = dropWhile is_sep (drop (length old) x)"
proof (cases k)
  case 0
  then show ?thesis by simp
next
  case (Suc k')
  then have "0 < k" by simp
  with p0 pk seps have o: "list_all is_sep old" by (rule periodic_seps)
  from pk have "take (length old) (drop k x) = old" by (auto simp: prefix_def)
  then have "take (k + length old) x = take k x @ old" by (simp add: take_add)
  with seps o have all: "list_all is_sep (take (k + length old) x)" by simp
  have "dropWhile is_sep (drop (k + length old) x) = dropWhile is_sep x"
    using all by (rule dropWhile_drop_within) simp
  moreover have "dropWhile is_sep (drop (length old) x) = dropWhile is_sep x"
    using all by (rule dropWhile_drop_within) simp
  ultimately show ?thesis by simp
qed

lemma match_padded_at_occurrence:
  assumes "old \<noteq> []"
  shows "match_padded old (old @ y) = Some (dropWhile is_sep y)"
proof -
  from assms obtain c o' where old: "old = c # o'" by (cases old) auto
  let ?x = "old @ y"
  have direct: "dropWhile is_sep (drop (length old) ?x) = dropWhile is_sep y" by simp
  show ?thesis
  proof (cases "is_sep c \<and> match_padded old (o' @ y) \<noteq> None")
    case True
    then obtain r where r: "match_padded old (o' @ y) = Some r" by auto
    from match_padded_SomeD [OF r] obtain k where
      k: "list_all is_sep (take k (o' @ y))" "prefix old (drop k (o' @ y))"
         "r = dropWhile is_sep (drop (k + length old) (o' @ y))" by blast
    have x: "?x = c # o' @ y" using old by simp
    from k True have a: "list_all is_sep (take (Suc k) ?x)" by (simp add: x)
    from k have b: "prefix old (drop (Suc k) ?x)" by (simp add: x)
    have "prefix old ?x" by simp
    from alignment_rest [OF this a b] direct
    have "dropWhile is_sep (drop (Suc k + length old) ?x) = dropWhile is_sep y" by simp
    with k(3) have "r = dropWhile is_sep y" by (simp add: x)
    with r True show ?thesis by (simp add: old)
  next
    case False
    then have "(if is_sep c then match_padded old (o' @ y) else None) = None" by auto
    then have "match_padded old (c # o' @ y) =
                 (if prefix old (c # o' @ y)
                  then Some (dropWhile is_sep (drop (length old) (c # o' @ y))) else None)"
      by simp
    moreover have "prefix old (c # o' @ y)" by (simp add: old)
    ultimately show ?thesis using direct by (simp add: old)
  qed
qed

lemma match_padded_padded_occurrence:
  "old \<noteq> [] \<Longrightarrow> list_all is_sep p1 \<Longrightarrow>
   match_padded old (p1 @ old @ y) = Some (dropWhile is_sep y)"
proof (induction p1)
  case Nil
  then show ?case by (simp add: match_padded_at_occurrence)
next
  case (Cons c p1)
  then show ?case by simp
qed

lemma dropWhile_padding:
  "list_all P p2 \<Longrightarrow> post = [] \<or> \<not> P (hd post) \<Longrightarrow> dropWhile P (p2 @ post) = post"
  by (cases post) (simp_all add: list_all_iff dropWhile_append2 dropWhile_all)

lemma prefix_shorten:
  assumes "prefix old (a @ old @ y)" "a \<noteq> []" "old \<noteq> []"
  shows "prefix old (a @ butlast old)"
proof -
  have "prefix (butlast old) (old @ y)"
    by (metis prefix_append prefixeq_butlast)
  then have "prefix (a @ butlast old) (a @ old @ y)" by simp
  moreover from assms have "length old \<le> length (a @ butlast old)"
    by (cases a) simp_all
  ultimately show ?thesis using assms(1) by (metis prefix_length_prefix)
qed

lemma match_padded_none_before:
  assumes "pre \<noteq> []" "\<not> is_sep (last pre)" "\<not> includes_str (pre @ w @ butlast old) old"
    "old \<noteq> []"
  shows "match_padded old (pre @ w @ old @ y) = None"
  using assms
proof (induction pre)
  case Nil
  then show ?case by simp
next
  case (Cons c pre)
  have np: "\<not> prefix old (c # pre @ w @ old @ y)"
  proof
    assume "prefix old (c # pre @ w @ old @ y)"
    then have "prefix old ((c # pre @ w) @ old @ y)" by simp
    then have "prefix old ((c # pre @ w) @ butlast old)"
      using Cons.prems(4) by (intro prefix_shorten [of old _ y]) simp_all
    then have "includes_str (c # pre @ w @ butlast old) old" by simp
    with Cons.prems(3) show False by simp
  qed
  have inner: "(if is_sep c then match_padded old (pre @ w @ old @ y) else None) = None"
  proof (cases "pre = []")
    case True
    with Cons.prems(2) show ?thesis by simp
  next
    case False
    with Cons.prems have "\<not> is_sep (last pre)" "\<not> includes_str (pre @ w @ butlast old) old"
      by simp_all
    with Cons.IH False Cons.prems(4) show ?thesis by simp
  qed
  from np inner show ?case by simp
qed

lemma replace_padded_decomposition:
  assumes old: "old \<noteq> []" and p1: "list_all is_sep p1" and p2: "list_all is_sep p2"
    and post: "post = [] \<or> \<not> is_sep (hd post)"
  shows "pre = [] \<or> \<not> is_sep (last pre) \<Longrightarrow>
         \<not> includes_str (pre @ p1 @ butlast old) old \<Longrightarrow>
         replace_padded old (pre @ p1 @ old @ p2 @ post)
           = pre @ CHR 0x20 # replace_padded old post"
proof (induction pre)
  case Nil
  from old obtain c s where cs: "p1 @ old @ p2 @ post = c # s"
    by (cases "p1 @ old @ p2 @ post") auto
  have "match_padded old (p1 @ old @ p2 @ post) = Some (dropWhile is_sep (p2 @ post))"
    using old p1 by (rule match_padded_padded_occurrence)
  also have "dropWhile is_sep (p2 @ post) = post" using p2 post by (rule dropWhile_padding)
  finally have m: "match_padded old (c # s) = Some post" by (simp add: cs)
  have "length post < length (p1 @ old @ p2 @ post)" using old by simp
  then have "length post < length (c # s)" by (simp add: cs)
  with m have "replace_padded old (c # s) = CHR 0x20 # replace_padded old post"
    by (simp del: match_padded.simps)
  then show ?case by (simp add: cs)
next
  case (Cons c pre)
  have "match_padded old ((c # pre) @ p1 @ old @ p2 @ post) = None"
    using Cons.prems old by (intro match_padded_none_before) simp_all
  then have "replace_padded old (c # pre @ p1 @ old @ p2 @ post)
               = c # replace_padded old (pre @ p1 @ old @ p2 @ post)"
    by (simp del: match_padded.simps)
  moreover from Cons.prems have "pre = [] \<or> \<not> is_sep (last pre)"
    "\<not> includes_str (pre @ p1 @ butlast old) old" by (auto split: if_splits)
  ultimately show ?case using Cons.IH by simp
qed

lemma includes_str_drop: "prefix t (drop k x) \<Longrightarrow> includes_str x t"
proof -
  assume "prefix t (drop k x)"
  then obtain v where "drop k x = t @ v" by (auto simp: prefix_def)
  then have "x = take k x @ t @ v" by (metis append_take_drop_id)
  then show ?thesis using includes_str_iff by blast
qed

lemma replace_padded_no_occurrence:
  "old \<noteq> [] \<Longrightarrow> \<not> includes_str s old \<Longrightarrow> replace_padded old s = s"
proof (induction s)
  case Nil
  then show ?case by simp
next
  case (Cons c s)
  have "match_padded old (c # s) = None"
  proof (cases "match_padded old (c # s)")
    case None
    then show ?thesis .
  next
    case (Some r)
    from match_padded_SomeD [OF Some] obtain k where "prefix old (drop k (c # s))" by blast
    then have "includes_str (c # s) old" by (rule includes_str_drop)
    with Cons.prems show ?thesis by simp
  qed
  moreover from Cons.prems have "\<not> includes_str s old" by simp
  ultimately show ?case using Cons by (simp del: match_padded.simps)
qed

section \<open>The claims on sanitizing and template expansion\<close>

lemma replace_runs_none:
  "list_all (\<lambda>c. \<not> P c) s \<Longrightarrow> replace_runs P r s = s"
  by (induction s) simp_all

lemma space_not_illegal: "is_space c \<Longrightarrow> \<not> is_illegal c"
  by (auto simp: is_space_def is_illegal_def)

lemma sanitizeName_all_illegal:
  "t \<noteq> [] \<Longrightarrow> list_all is_illegal t \<Longrightarrow> sanitizeName t = ''-''"
  by (simp add: sanitizeName_def replace_runs_all trim_def is_space_def)

lemma sanitizeName_all_space:
  assumes "list_all is_space u"
  shows "sanitizeName u = []"
proof -
  from assms have "list_all (\<lambda>c. \<not> is_illegal c) u"
    by (simp add: list_all_iff space_not_illegal)
  then have "replace_runs is_illegal ''-'' u = u" by (rule replace_runs_none)
  moreover have "trim (replace_runs is_space '' '' u) = []"
  proof (cases "u = []")
    case True
    then show ?thesis by (simp add: trim_def)
  next
    case False
    from False assms have "replace_runs is_space '' '' u = '' ''" by (rule replace_runs_all)
    then show ?thesis by (simp add: trim_def is_space_def)
  qed
  ultimately show ?thesis by (simp add: sanitizeName_def)
qed

text \<open>
  Claim C6, as the code has it: \<open>sanitizeName\<close> replaces every maximal run of the
  characters \<^verbatim>\<open>\ / : " * ? < > |\<close> by one hyphen, then every maximal run of white space
  by one space, and trims; \<open>sanitizeName "a/b:c*d" = "a-b-c-d"\<close>. A non-empty input of
  illegal characters only gives \<open>"-"\<close> (not the empty string); an input of white space only
  (or the empty input) gives the empty string, and it is the empty result that makes the
  caller take the base name \<open>"attachment"\<close>.
\<close>

theorem sanitizeName_runs:
  "sanitizeName s = trim (collapse_runs_spec is_space '' '' (collapse_runs_spec is_illegal ''-'' s))
   \<and> sanitizeName ''a/b:c*d'' = ''a-b-c-d''
   \<and> (t \<noteq> [] \<and> list_all is_illegal t \<longrightarrow> sanitizeName t = ''-'')
   \<and> (list_all is_space u \<longrightarrow> sanitizeName u = [])
   \<and> newBaseName p v = (if sanitizeName (applyVariables p v) = [] then ''attachment''
                        else sanitizeName (applyVariables p v))"
proof -
  have "sanitizeName s = trim (collapse_runs_spec is_space '' '' (collapse_runs_spec is_illegal ''-'' s))"
    by (simp add: sanitizeName_def replace_runs_is_collapse)
  moreover have "sanitizeName ''a/b:c*d'' = ''a-b-c-d''"
    by (simp add: sanitizeName_def trim_def is_space_def is_illegal_def)
  moreover have "newBaseName p v = (if sanitizeName (applyVariables p v) = [] then ''attachment''
                        else sanitizeName (applyVariables p v))"
    by (simp add: newBaseName_def Let_def)
  ultimately show ?thesis
    using sanitizeName_all_illegal [of t] sanitizeName_all_space [of u] by blast
qed

theorem sanitizeName_runs_witness:
  "''///'' \<noteq> [] \<and> list_all is_illegal ''///'' \<and> sanitizeName ''///'' = ''-''
   \<and> list_all is_space [CHR 0x20, CHR 0x09] \<and> sanitizeName [CHR 0x20, CHR 0x09] = []"
proof -
  have a: "''///'' \<noteq> [] \<and> list_all is_illegal ''///''" by (simp add: is_illegal_def)
  have b: "list_all is_space [CHR 0x20, CHR 0x09]" by (simp add: is_space_def)
  from sanitizeName_runs [where t = "''///''" and u = "[CHR 0x20, CHR 0x09]"] a b
  show ?thesis by blast
qed

text \<open>
  Claim C6 as it is written fails: an input of illegal characters only is not sanitized to
  the empty string, and the placeholder is not taken.
\<close>

theorem sanitizeName_all_illegal_counterexample:
  "list_all is_illegal ''///'' \<and> sanitizeName ''///'' \<noteq> [] \<and>
   newBaseName ''///'' Map.empty = ''-'' \<and> newBaseName ''///'' Map.empty \<noteq> ''attachment''"
  by (simp add: sanitizeName_def trim_def is_space_def is_illegal_def newBaseName_def
      applyVariables_def replace_all_def or_default_def)

text \<open>
  Claim C7, as the code has it: \<open>applyVariables\<close> makes five replacement passes, one per
  variable. For a pattern made of text without \<^verbatim>\<open>$\<close>, of the five placeholder tokens and
  of tokens \<^verbatim>\<open>${name}\<close> with another name (without \<^verbatim>\<open>$\<close> and \<^verbatim>\<open>}\<close>), and for values
  (after the fallbacks "note", "file", "", "", "01" for a missing or empty value) that contain
  no \<^verbatim>\<open>$\<close>, the result is the single-pass expansion: every placeholder token gives
  the value of its variable, and everything else, the text of the values included, is
  copied.
\<close>

theorem applyVariables_single_pass:
  "(\<forall>seg\<in>set segs. segment_ok seg) \<Longrightarrow> (\<forall>v. CHR ''$'' \<notin> set (value_of vars v)) \<Longrightarrow>
   applyVariables (concat (map render segs)) vars = expand_single_pass_spec segs vars"
  by (rule applyVariables_segments)

theorem applyVariables_single_pass_witness:
  "list_all segment_ok [Text ''img-'', Placeholder Filename, Text '' '', Placeholder Original,
                Unknown ''foo'', Placeholder Index]
   \<and> (\<forall>v. CHR ''$'' \<notin> set (value_of [''filename'' \<mapsto> ''Note''] v))
   \<and> applyVariables ''img-${filename} ${original}${foo}${index}'' [''filename'' \<mapsto> ''Note'']
       = ''img-Note file${foo}01''"
proof -
  let ?segs = "[Text ''img-'', Placeholder Filename, Text '' '', Placeholder Original,
                Unknown ''foo'', Placeholder Index]"
  let ?vars = "[''filename'' \<mapsto> ''Note'']"
  have a: "\<forall>seg\<in>set ?segs. segment_ok seg" by simp
  have b: "\<forall>v. CHR ''$'' \<notin> set (value_of ?vars v)"
  proof
    fix v show "CHR ''$'' \<notin> set (value_of ?vars v)"
      by (cases v) (simp_all add: value_of_def or_default_def)
  qed
  have c: "concat (map render ?segs) = ''img-${filename} ${original}${foo}${index}''" by simp
  have d: "expand_single_pass_spec ?segs ?vars = ''img-Note file${foo}01''"
    by (simp add: expand_single_pass_spec_def value_of_def or_default_def)
  from applyVariables_single_pass [OF a b] c d
  have "applyVariables ''img-${filename} ${original}${foo}${index}'' ?vars = ''img-Note file${foo}01''"
    by simp
  moreover have "list_all segment_ok ?segs" by simp
  ultimately show ?thesis using b by blast
qed

text \<open>
  Claim C7 as it is written fails: the passes follow each other, so that a placeholder token
  inside the value of an earlier variable is expanded by a later pass.
\<close>

theorem applyVariables_resubstitution_counterexample:
  "applyVariables ''${filename}'' [''filename'' \<mapsto> ''${original}'', ''original'' \<mapsto> ''pic''] = ''pic''
   \<and> applyVariables ''${filename}'' [''filename'' \<mapsto> ''${original}'', ''original'' \<mapsto> ''pic'']
       \<noteq> ''${original}''"
  by (simp add: applyVariables_def replace_all_def or_default_def)

section \<open>The fallback for an empty value\<close>

lemma replace_all_from_pre:
  assumes "CHR ''$'' \<notin> set r"
  shows "replace_all_from tok r pre s = replace_all_from tok r pre' s"
proof (induction s arbitrary: pre pre' rule: length_induct)
  case (1 s)
  show ?case
  proof (cases s)
    case Nil
    then show ?thesis by simp
  next
    case (Cons c t)
    show ?thesis
    proof (cases "tok \<noteq> [] \<and> prefix tok (c # t)")
      case True
      then have "length (drop (length tok) (c # t)) < length s"
        using Cons by (cases tok) auto
      with 1 have "replace_all_from tok r (pre @ tok) (drop (length tok) (c # t)) =
                   replace_all_from tok r (pre' @ tok) (drop (length tok) (c # t))"
        by blast
      with True Cons assms show ?thesis by (simp add: get_substitution_plain)
    next
      case False
      from 1 Cons have "replace_all_from tok r (pre @ [c]) t = replace_all_from tok r (pre' @ [c]) t"
        by simp
      with False Cons show ?thesis by auto
    qed
  qed
qed

lemma replace_all_token:
  assumes "CHR ''$'' \<notin> set r" "tok \<noteq> []"
  shows "replace_all tok r (tok @ s) = r @ replace_all tok r s"
  unfolding replace_all_def
  using replace_all_from_token [OF assms(2), of r "[]" s]
    replace_all_from_pre [OF assms(1), of tok "[] @ tok" s "[]"]
  by (simp add: get_substitution_plain [OF assms(1)])

lemma replace_all_skip:
  assumes "CHR ''$'' \<notin> set r" "\<not> prefix tok (c # s)"
  shows "replace_all tok r (c # s) = c # replace_all tok r s"
  unfolding replace_all_def
  using assms(2) replace_all_from_pre [OF assms(1), of tok "[c]" s "[]"] by simp

lemma replace_all_text:
  assumes "CHR ''$'' \<notin> set r" "tok \<noteq> []" "hd tok = CHR ''$''" "CHR ''$'' \<notin> set t"
  shows "replace_all tok r (t @ s) = t @ replace_all tok r s"
  unfolding replace_all_def
  using replace_all_from_text [OF assms(2,3,4), of r "[]" s]
    replace_all_from_pre [OF assms(1), of tok "[] @ t" s "[]"]
  by simp

lemma replace_all_other_token:
  assumes "CHR ''$'' \<notin> set r" "name_of v \<noteq> name_of w"
  shows "replace_all (''${'' @ name_of v @ ''}'') r ((''${'' @ name_of w @ ''}'') @ s) =
           (''${'' @ name_of w @ ''}'') @ replace_all (''${'' @ name_of v @ ''}'') r s"
  unfolding replace_all_def
  using replace_all_from_other_token [of "name_of v" "name_of w" r "[]" s] name_of_plain assms(2)
    replace_all_from_pre [OF assms(1), of "''${'' @ name_of v @ ''}''"
      "[] @ (''${'' @ name_of w @ ''}'')" s "[]"]
  by simp

text \<open>
  A replacement pass works on the two sides of a piece \<open>m\<close> of the string on their own, when no
  occurrence of the token that starts before \<open>m\<close> reaches into it.
\<close>

lemma replace_all_split:
  assumes r: "CHR ''$'' \<notin> set r" and tok: "tok \<noteq> []"
    and reach: "\<And>x y. prefix tok (x @ m @ y) \<Longrightarrow> x \<noteq> [] \<Longrightarrow> prefix tok x"
    and at: "\<And>y. replace_all tok r (m @ y) = m' @ replace_all tok r y"
  shows "replace_all tok r (a @ m @ b) = replace_all tok r a @ m' @ replace_all tok r b"
proof (induction a rule: length_induct)
  case (1 a)
  show ?case
  proof (cases a)
    case Nil
    have "replace_all tok r [] = []" by (simp add: replace_all_def)
    with Nil at show ?thesis by simp
  next
    case (Cons c t)
    show ?thesis
    proof (cases "prefix tok (a @ m @ b)")
      case True
      from reach [OF True] Cons have "prefix tok a" by simp
      then obtain rest where a: "a = tok @ rest" by (auto simp: prefix_def)
      with tok have "length rest < length a" by simp
      with 1 have "replace_all tok r (rest @ m @ b) =
                   replace_all tok r rest @ m' @ replace_all tok r b" by blast
      with a show ?thesis
        using replace_all_token [OF r tok, of "rest @ m @ b"] replace_all_token [OF r tok, of rest]
        by simp
    next
      case False
      then have np: "\<not> prefix tok (c # t @ m @ b)" using Cons by simp
      have np': "\<not> prefix tok (c # t)"
      proof
        assume "prefix tok (c # t)"
        then have "prefix tok ((c # t) @ m @ b)" by (rule prefix_prefix)
        with np show False by simp
      qed
      from 1 Cons have "replace_all tok r (t @ m @ b) =
                        replace_all tok r t @ m' @ replace_all tok r b" by simp
      with Cons show ?thesis
        using replace_all_skip [OF r np] replace_all_skip [OF r np'] by simp
    qed
  qed
qed

lemma reach_dollar:
  assumes m: "m \<noteq> []" "hd m = CHR ''$''" and tok: "CHR ''$'' \<notin> set (tl tok)"
    and p: "prefix tok (x @ m @ y)" and x: "x \<noteq> []"
  shows "prefix tok x"
proof (rule ccontr)
  assume n: "\<not> prefix tok x"
  with p obtain us where us: "tok = x @ us" "prefix us (m @ y)"
    by (auto simp: prefix_append)
  with n have "us \<noteq> []" by auto
  with us(2) m have "hd us = CHR ''$''" by (cases us; cases m) auto
  with \<open>us \<noteq> []\<close> have "CHR ''$'' \<in> set us" by (cases us) auto
  with us(1) x have "CHR ''$'' \<in> set (tl tok)" by (cases x) auto
  with tok show False by simp
qed

lemma reach_text:
  assumes m: "last tok \<notin> set m" "\<not> sublist m tok"
    and p: "prefix tok (x @ m @ y)"
  shows "prefix tok x"
proof (rule ccontr)
  assume n: "\<not> prefix tok x"
  with p obtain us where us: "tok = x @ us" "prefix us (m @ y)"
    by (auto simp: prefix_append)
  with n have ne: "us \<noteq> []" by auto
  from us(2) consider "prefix us m" | ws where "us = m @ ws"
    by (auto simp: prefix_append)
  then show False
  proof cases
    case 1
    with ne have "last us \<in> set m" by (auto simp: prefix_def)
    with us(1) ne m(1) show False by simp
  next
    case 2
    with us(1) have "sublist m tok" by (auto simp: sublist_def)
    with m(2) show False by simp
  qed
qed

lemma token_tail: "CHR ''$'' \<notin> set (tl (''${'' @ name_of v @ ''}''))"
  using name_of_plain [of v] by simp

lemma split_at_token:
  assumes "CHR ''$'' \<notin> set r"
  shows "replace_all (''${'' @ name_of v @ ''}'') r (a @ (''${'' @ name_of v @ ''}'') @ b) =
           replace_all (''${'' @ name_of v @ ''}'') r a @ r @
           replace_all (''${'' @ name_of v @ ''}'') r b"
proof (rule replace_all_split [OF assms])
  show "''${'' @ name_of v @ ''}'' \<noteq> []" by simp
  show "prefix (''${'' @ name_of v @ ''}'') x"
    if "prefix (''${'' @ name_of v @ ''}'') (x @ (''${'' @ name_of v @ ''}'') @ y)" "x \<noteq> []" for x y
    using reach_dollar [OF _ _ token_tail that] by simp
  show "replace_all (''${'' @ name_of v @ ''}'') r ((''${'' @ name_of v @ ''}'') @ y) =
          r @ replace_all (''${'' @ name_of v @ ''}'') r y" for y
    by (rule replace_all_token [OF assms]) simp
qed

lemma split_at_other_token:
  assumes "CHR ''$'' \<notin> set r" "v \<noteq> w"
  shows "replace_all (''${'' @ name_of v @ ''}'') r (a @ (''${'' @ name_of w @ ''}'') @ b) =
           replace_all (''${'' @ name_of v @ ''}'') r a @ (''${'' @ name_of w @ ''}'') @
           replace_all (''${'' @ name_of v @ ''}'') r b"
proof (rule replace_all_split [OF assms(1)])
  show "''${'' @ name_of v @ ''}'' \<noteq> []" by simp
  show "prefix (''${'' @ name_of v @ ''}'') x"
    if "prefix (''${'' @ name_of v @ ''}'') (x @ (''${'' @ name_of w @ ''}'') @ y)" "x \<noteq> []" for x y
    using reach_dollar [OF _ _ token_tail that] by simp
  from assms(2) have "name_of v \<noteq> name_of w" using name_of_inj by blast
  then show "replace_all (''${'' @ name_of v @ ''}'') r ((''${'' @ name_of w @ ''}'') @ y) =
          (''${'' @ name_of w @ ''}'') @ replace_all (''${'' @ name_of v @ ''}'') r y" for y
    by (rule replace_all_other_token [OF assms(1)])
qed

lemma split_at_text:
  assumes "CHR ''$'' \<notin> set r" "CHR ''$'' \<notin> set m" "CHR ''}'' \<notin> set m"
    "\<not> sublist m (''${'' @ name_of v @ ''}'')"
  shows "replace_all (''${'' @ name_of v @ ''}'') r (a @ m @ b) =
           replace_all (''${'' @ name_of v @ ''}'') r a @ m @
           replace_all (''${'' @ name_of v @ ''}'') r b"
proof (rule replace_all_split [OF assms(1)])
  show "''${'' @ name_of v @ ''}'' \<noteq> []" by simp
  show "prefix (''${'' @ name_of v @ ''}'') x"
    if "prefix (''${'' @ name_of v @ ''}'') (x @ m @ y)" "x \<noteq> []" for x y
    using reach_text [OF _ assms(4) that(1)] assms(3) by simp
  show "replace_all (''${'' @ name_of v @ ''}'') r (m @ y) =
          m @ replace_all (''${'' @ name_of v @ ''}'') r y" for y
    by (rule replace_all_text [OF assms(1) _ _ assms(2)]) simp_all
qed

lemma replace_all_plain_text:
  assumes "tok \<noteq> []" "hd tok = CHR ''$''" "CHR ''$'' \<notin> set t"
  shows "replace_all tok r t = t"
  unfolding replace_all_def using replace_all_from_text [OF assms, of r "[]" "[]"] by simp

lemma applyVariables_text:
  assumes "CHR ''$'' \<notin> set t"
  shows "applyVariables t vars = t"
  unfolding applyVariables_def by (simp add: replace_all_plain_text [OF _ _ assms])

lemma value_of_empty:
  "vars (name_of v) = Some [] \<or> vars (name_of v) = None \<Longrightarrow> value_of vars v = fallback_of v"
  by (auto simp: value_of_def or_default_def)

lemma filename_as_text:
  assumes "vars ''filename'' = Some [] \<or> vars ''filename'' = None"
  shows "applyVariables (a @ ''${filename}'' @ b) vars = applyVariables (a @ ''note'' @ b) vars"
proof -
  let ?tok = "''${'' @ name_of Filename @ ''}''"
  from assms have v: "value_of vars Filename = ''note''"
    using value_of_empty [of vars Filename] by simp
  have n: "CHR ''$'' \<notin> set ''note''" by simp
  have "replace_all ?tok ''note'' (a @ ?tok @ b) =
          replace_all ?tok ''note'' a @ ''note'' @ replace_all ?tok ''note'' b"
    by (rule split_at_token [OF n])
  also have "\<dots> = replace_all ?tok ''note'' (a @ ''note'' @ b)"
    by (rule split_at_text [OF n, symmetric]) (simp_all add: sublist_Cons_right)
  finally have "replace_all ?tok ''note'' (a @ ''${filename}'' @ b) =
                replace_all ?tok ''note'' (a @ ''note'' @ b)" by simp
  then show ?thesis unfolding applyVariables_passes v by simp
qed

lemma filename_fallback_expands:
  assumes e: "vars ''filename'' = Some [] \<or> vars ''filename'' = None"
    and plain: "\<forall>v. CHR ''$'' \<notin> set (value_of vars v)"
  shows "applyVariables (a @ ''${filename}'' @ b) vars =
           applyVariables a vars @ ''note'' @ applyVariables b vars"
proof -
  from e have v: "value_of vars Filename = ''note''"
    using value_of_empty [of vars Filename] by simp
  from plain have p: "\<And>w. CHR ''$'' \<notin> set (value_of vars w)" by blast
  have later: "replace_all (''${'' @ name_of w @ ''}'') (value_of vars w) (x @ ''note'' @ y) =
                 replace_all (''${'' @ name_of w @ ''}'') (value_of vars w) x @ ''note'' @
                 replace_all (''${'' @ name_of w @ ''}'') (value_of vars w) y"
    if "w \<noteq> Filename" for w x y
    using that by (intro split_at_text [OF p]) (cases w; simp add: sublist_Cons_right)+
  have first: "replace_all (''${'' @ name_of Filename @ ''}'') (value_of vars Filename)
                 (a @ (''${'' @ name_of Filename @ ''}'') @ b) =
               replace_all (''${'' @ name_of Filename @ ''}'') (value_of vars Filename) a @ ''note'' @
               replace_all (''${'' @ name_of Filename @ ''}'') (value_of vars Filename) b"
    using split_at_token [OF p, of Filename Filename a b] v by simp
  have "applyVariables (a @ (''${'' @ name_of Filename @ ''}'') @ b) vars =
          applyVariables a vars @ ''note'' @ applyVariables b vars"
    unfolding applyVariables_passes first by (simp only: later tvar.distinct not_False_eq_True)
  then show ?thesis by simp
qed

lemma original_fallback_in_text:
  assumes e: "vars ''original'' = Some [] \<or> vars ''original'' = None"
    and a: "CHR ''$'' \<notin> set a" and b: "CHR ''$'' \<notin> set b"
  shows "applyVariables (a @ ''${original}'' @ b) vars = a @ ''file'' @ b"
proof -
  let ?f = "''${'' @ name_of Filename @ ''}''" and ?o = "''${'' @ name_of Original @ ''}''"
  from e have v: "value_of vars Original = ''file''"
    using value_of_empty [of vars Original] by simp
  have "replace_all_from ?f r [] (a @ ?o @ b) = a @ ?o @ b" for r
    using replace_all_from_text [of ?f a r "[]" "?o @ b"] a
      replace_all_from_other_token [of "name_of Filename" "name_of Original" r a b]
      replace_all_from_text [of ?f b r "a @ ?o" "[]"] b
    by simp
  then have 1: "replace_all ?f r (a @ ?o @ b) = a @ ?o @ b" for r
    by (simp add: replace_all_def)
  have "replace_all_from ?o ''file'' [] (a @ ?o @ b) = a @ ''file'' @ b"
    using replace_all_from_text [of ?o a "''file''" "[]" "?o @ b"] a
      replace_all_from_token [of ?o "''file''" a b]
      replace_all_from_text [of ?o b "''file''" "a @ ?o" "[]"] b
    by (simp add: get_substitution_plain)
  then have 2: "replace_all ?o ''file'' (a @ ?o @ b) = a @ ''file'' @ b"
    by (simp add: replace_all_def)
  have t: "CHR ''$'' \<notin> set (a @ ''file'' @ b)" using a b by simp
  have 3: "replace_all (''${'' @ name_of w @ ''}'') r (a @ ''file'' @ b) = a @ ''file'' @ b" for w r
    by (rule replace_all_plain_text [OF _ _ t]) simp_all
  have "applyVariables (a @ ?o @ b) vars = a @ ''file'' @ b"
    unfolding applyVariables_passes v 1 2 3 ..
  then show ?thesis by simp
qed

lemma original_fallback_expands:
  assumes e: "vars ''original'' = Some [] \<or> vars ''original'' = None"
    and plain: "\<forall>v. CHR ''$'' \<notin> set (value_of vars v)"
  shows "applyVariables (a @ ''${original}'' @ b) vars =
           applyVariables a vars @ ''file'' @ applyVariables b vars"
proof -
  from e have v: "value_of vars Original = ''file''"
    using value_of_empty [of vars Original] by simp
  from plain have p: "\<And>w. CHR ''$'' \<notin> set (value_of vars w)" by blast
  have later: "replace_all (''${'' @ name_of w @ ''}'') (value_of vars w) (x @ ''file'' @ y) =
                 replace_all (''${'' @ name_of w @ ''}'') (value_of vars w) x @ ''file'' @
                 replace_all (''${'' @ name_of w @ ''}'') (value_of vars w) y"
    if "w \<noteq> Filename" "w \<noteq> Original" for w x y
    using that by (intro split_at_text [OF p]) (cases w; simp add: sublist_Cons_right)+
  have first: "replace_all (''${'' @ name_of Filename @ ''}'') (value_of vars Filename)
                 (a @ (''${'' @ name_of Original @ ''}'') @ b) =
               replace_all (''${'' @ name_of Filename @ ''}'') (value_of vars Filename) a @
               (''${'' @ name_of Original @ ''}'') @
               replace_all (''${'' @ name_of Filename @ ''}'') (value_of vars Filename) b"
    by (rule split_at_other_token [OF p]) simp
  have second: "replace_all (''${'' @ name_of Original @ ''}'') (value_of vars Original)
                 (x @ (''${'' @ name_of Original @ ''}'') @ y) =
               replace_all (''${'' @ name_of Original @ ''}'') (value_of vars Original) x @ ''file'' @
               replace_all (''${'' @ name_of Original @ ''}'') (value_of vars Original) y" for x y
    using split_at_token [OF p, of Original Original x y] v by simp
  have "applyVariables (a @ (''${'' @ name_of Original @ ''}'') @ b) vars =
          applyVariables a vars @ ''file'' @ applyVariables b vars"
    unfolding applyVariables_passes first second
    by (simp only: later tvar.distinct not_False_eq_True)
  then show ?thesis by simp
qed

text \<open>
  Claim C10: the fallback of \<open>applyVariables\<close> also replaces a value that is the empty
  string. Let \<open>vars.filename\<close> be empty (or missing). In every pattern a token
  \<^verbatim>\<open>${filename}\<close> expands as the text \<open>note\<close> in its place does, whatever stands before and
  behind it and whatever the other values are; and when the values contain no \<^verbatim>\<open>$\<close>, the
  expansion of the pattern is the expansion of the part before the token, then \<open>note\<close>, then
  the expansion of the part behind it. Let \<open>vars.original\<close> be empty (or missing). A token
  \<^verbatim>\<open>${original}\<close> between two texts without \<^verbatim>\<open>$\<close> gives \<open>file\<close> between them, whatever
  the other values are; and when the values contain no \<^verbatim>\<open>$\<close>, the expansion of every
  pattern with the token is the expansion of the part before it, then \<open>file\<close>, then the expansion
  of the part behind it. A pattern without \<^verbatim>\<open>$\<close> is its own expansion.
\<close>

theorem applyVariables_empty_value_fallback:
  "(vars ''filename'' = Some [] \<or> vars ''filename'' = None \<longrightarrow>
      applyVariables (a @ ''${filename}'' @ b) vars = applyVariables (a @ ''note'' @ b) vars
      \<and> ((\<forall>v. CHR ''$'' \<notin> set (value_of vars v)) \<longrightarrow>
           applyVariables (a @ ''${filename}'' @ b) vars =
             applyVariables a vars @ ''note'' @ applyVariables b vars))
   \<and> (vars ''original'' = Some [] \<or> vars ''original'' = None \<longrightarrow>
      (CHR ''$'' \<notin> set a \<and> CHR ''$'' \<notin> set b \<longrightarrow>
           applyVariables (a @ ''${original}'' @ b) vars = a @ ''file'' @ b)
      \<and> ((\<forall>v. CHR ''$'' \<notin> set (value_of vars v)) \<longrightarrow>
           applyVariables (a @ ''${original}'' @ b) vars =
             applyVariables a vars @ ''file'' @ applyVariables b vars))
   \<and> (CHR ''$'' \<notin> set t \<longrightarrow> applyVariables t vars = t)"
  using filename_as_text [of vars a b] filename_fallback_expands [of vars a b]
    original_fallback_in_text [of vars a b] original_fallback_expands [of vars a b]
    applyVariables_text [of t vars]
  by blast

theorem applyVariables_empty_value_fallback_witness:
  "applyVariables ''img-${filename}.x'' [''filename'' \<mapsto> [], ''original'' \<mapsto> ''$&''] = ''img-note.x''
   \<and> applyVariables ''${filename}-${original}'' [''filename'' \<mapsto> [], ''original'' \<mapsto> []] = ''note-file''
   \<and> applyVariables ''[${original}]'' [''filename'' \<mapsto> ''$&'', ''original'' \<mapsto> []] = ''[file]''"
proof -
  let ?u = "[''filename'' \<mapsto> [], ''original'' \<mapsto> ''$&''] :: string \<rightharpoonup> string"
  let ?v = "[''filename'' \<mapsto> [], ''original'' \<mapsto> []] :: string \<rightharpoonup> string"
  let ?w = "[''filename'' \<mapsto> ''$&'', ''original'' \<mapsto> []] :: string \<rightharpoonup> string"
  have plain: "\<forall>x. CHR ''$'' \<notin> set (value_of ?v x)"
  proof
    fix x show "CHR ''$'' \<notin> set (value_of ?v x)"
      by (cases x) (simp_all add: value_of_def or_default_def)
  qed
  have fu: "?u ''filename'' = Some [] \<or> ?u ''filename'' = None" by simp
  have fv: "?v ''filename'' = Some [] \<or> ?v ''filename'' = None" by simp
  have ov: "?v ''original'' = Some [] \<or> ?v ''original'' = None" by simp
  have ow: "?w ''original'' = Some [] \<or> ?w ''original'' = None" by simp
  note u = applyVariables_empty_value_fallback
    [where vars = ?u and a = "''img-''" and b = "''.x''" and t = "''img-note.x''"]
  have 1: "applyVariables ''img-${filename}.x'' ?u = ''img-note.x''"
    using conjunct1 [OF mp [OF conjunct1 [OF u] fu]] conjunct2 [OF conjunct2 [OF u]] by simp
  note v1 = applyVariables_empty_value_fallback
    [where vars = ?v and a = "[]" and b = "''-${original}''" and t = "[]"]
  note v2 = applyVariables_empty_value_fallback
    [where vars = ?v and a = "''-''" and b = "[]" and t = "[]"]
  have a: "applyVariables ''${filename}-${original}'' ?v =
             applyVariables [] ?v @ ''note'' @ applyVariables ''-${original}'' ?v"
    using mp [OF conjunct2 [OF mp [OF conjunct1 [OF v1] fv]] plain] by simp
  have b: "applyVariables ''-${original}'' ?v = ''-file''"
    using conjunct1 [OF mp [OF conjunct1 [OF conjunct2 [OF v2]] ov]] by simp
  have c: "applyVariables [] ?v = []"
    using conjunct2 [OF conjunct2 [OF v1]] by simp
  have 2: "applyVariables ''${filename}-${original}'' ?v = ''note-file''"
    unfolding a b c by simp
  note w = applyVariables_empty_value_fallback
    [where vars = ?w and a = "''[''" and b = "'']''" and t = "[]"]
  have 3: "applyVariables ''[${original}]'' ?w = ''[file]''"
    using conjunct1 [OF mp [OF conjunct1 [OF conjunct2 [OF w]] ow]] by simp
  from 1 2 3 show ?thesis by (intro conjI)
qed
text \<open>
  Claim C5, as the code has it. If the old name is absent (\<^verbatim>\<open>null\<close> or empty),
  \<open>getCleanOriginalName\<close> returns the base unchanged. If it is non-empty and does not
  occur in the base, the base is returned unchanged when it is non-empty, and \<open>"Attachment"\<close>
  when it is empty. If it occurs, the result is the trimmed replacement, or \<open>"Attachment"\<close>
  when that is empty; the replacement goes from left to right: the text before the first
  occurrence is copied, the occurrence with all the white space, hyphens and underscores
  around it becomes one space, and the replacement goes on behind it; a rest without
  occurrence is copied. To occur means to be a substring. In particular
  \<open>getCleanOriginalName "My Note - diagram" "My Note" = "diagram"\<close>.
\<close>

theorem getCleanOriginalName_cases:
  "getCleanOriginalName base None = base
   \<and> getCleanOriginalName base (Some []) = base
   \<and> (old1 \<noteq> [] \<and> \<not> includes_str base1 old1 \<and> base1 \<noteq> [] \<longrightarrow>
        getCleanOriginalName base1 (Some old1) = base1)
   \<and> (old2 \<noteq> [] \<longrightarrow> getCleanOriginalName [] (Some old2) = ''Attachment'')
   \<and> (old3 \<noteq> [] \<and> includes_str base3 old3 \<longrightarrow>
        getCleanOriginalName base3 (Some old3)
          = (if trim (replace_padded old3 base3) = [] then ''Attachment''
             else trim (replace_padded old3 base3)))
   \<and> (old \<noteq> [] \<and> list_all is_sep p1 \<and> list_all is_sep p2
        \<and> (pre = [] \<or> \<not> is_sep (last pre)) \<and> (post = [] \<or> \<not> is_sep (hd post))
        \<and> \<not> includes_str (pre @ p1 @ butlast old) old \<longrightarrow>
        replace_padded old (pre @ p1 @ old @ p2 @ post) = pre @ CHR 0x20 # replace_padded old post)
   \<and> (old4 \<noteq> [] \<and> \<not> includes_str rest old4 \<longrightarrow> replace_padded old4 rest = rest)
   \<and> (includes_str s t \<longleftrightarrow> (\<exists>u v. s = u @ t @ v))
   \<and> getCleanOriginalName ''My Note - diagram'' (Some ''My Note'') = ''diagram''"
proof -
  have 1: "getCleanOriginalName base None = base"
    and 2: "getCleanOriginalName base (Some []) = base"
    by (simp_all add: getCleanOriginalName_def)
  have 3: "old1 \<noteq> [] \<and> \<not> includes_str base1 old1 \<and> base1 \<noteq> [] \<longrightarrow>
        getCleanOriginalName base1 (Some old1) = base1"
    by (simp add: getCleanOriginalName_def)
  have 4: "old2 \<noteq> [] \<longrightarrow> getCleanOriginalName [] (Some old2) = ''Attachment''"
    by (simp add: getCleanOriginalName_def)
  have 5: "old3 \<noteq> [] \<and> includes_str base3 old3 \<longrightarrow>
        getCleanOriginalName base3 (Some old3)
          = (if trim (replace_padded old3 base3) = [] then ''Attachment''
             else trim (replace_padded old3 base3))"
    by (simp add: getCleanOriginalName_def Let_def)
  have 6: "old \<noteq> [] \<and> list_all is_sep p1 \<and> list_all is_sep p2
        \<and> (pre = [] \<or> \<not> is_sep (last pre)) \<and> (post = [] \<or> \<not> is_sep (hd post))
        \<and> \<not> includes_str (pre @ p1 @ butlast old) old \<longrightarrow>
        replace_padded old (pre @ p1 @ old @ p2 @ post) = pre @ CHR 0x20 # replace_padded old post"
    using replace_padded_decomposition [of old p1 p2 post pre] by blast
  have 7: "old4 \<noteq> [] \<and> \<not> includes_str rest old4 \<longrightarrow> replace_padded old4 rest = rest"
    using replace_padded_no_occurrence [of old4 rest] by blast
  have 8: "includes_str s t \<longleftrightarrow> (\<exists>u v. s = u @ t @ v)" by (rule includes_str_iff)
  have 9: "getCleanOriginalName ''My Note - diagram'' (Some ''My Note'') = ''diagram''"
    by (simp add: getCleanOriginalName_def trim_def is_sep_def is_space_def)
  from 1 2 3 4 5 6 7 8 9 show ?thesis by (intro conjI)
qed

theorem getCleanOriginalName_cases_witness:
  "getCleanOriginalName ''pic'' (Some ''Old'') = ''pic''
   \<and> getCleanOriginalName [] (Some ''Old'') = ''Attachment''
   \<and> getCleanOriginalName ''Old-pic'' (Some ''Old'')
       = (if trim (replace_padded ''Old'' ''Old-pic'') = [] then ''Attachment''
          else trim (replace_padded ''Old'' ''Old-pic''))
   \<and> replace_padded ''My Note'' (''a'' @ '' - '' @ ''My Note'' @ ''_'' @ ''b'')
       = ''a'' @ CHR 0x20 # replace_padded ''My Note'' ''b''
   \<and> replace_padded ''My Note'' ''b'' = ''b''"
proof -
  have h3: "''Old'' \<noteq> [] \<and> \<not> includes_str ''pic'' ''Old'' \<and> ''pic'' \<noteq> []" by simp
  have h4: "''Old'' \<noteq> []" by simp
  have h5: "''Old'' \<noteq> [] \<and> includes_str ''Old-pic'' ''Old''" by simp
  have h6: "''My Note'' \<noteq> [] \<and> list_all is_sep '' - '' \<and> list_all is_sep ''_''
        \<and> (''a'' = [] \<or> \<not> is_sep (last ''a'')) \<and> (''b'' = [] \<or> \<not> is_sep (hd ''b''))
        \<and> \<not> includes_str (''a'' @ '' - '' @ butlast ''My Note'') ''My Note''"
    by (simp add: is_sep_def is_space_def)
  have h7: "''My Note'' \<noteq> [] \<and> \<not> includes_str ''b'' ''My Note''" by simp
  note t = getCleanOriginalName_cases [where ?old1.0 = "''Old''" and ?base1.0 = "''pic''"
      and ?old2.0 = "''Old''" and ?old3.0 = "''Old''" and ?base3.0 = "''Old-pic''"
      and old = "''My Note''" and pre = "''a''" and ?p1.0 = "'' - ''" and ?p2.0 = "''_''"
      and post = "''b''" and ?old4.0 = "''My Note''" and rest = "''b''"]
  from t h3 have c3: "getCleanOriginalName ''pic'' (Some ''Old'') = ''pic''" by blast
  from t h4 have c4: "getCleanOriginalName [] (Some ''Old'') = ''Attachment''" by blast
  from t h5 have c5: "getCleanOriginalName ''Old-pic'' (Some ''Old'')
       = (if trim (replace_padded ''Old'' ''Old-pic'') = [] then ''Attachment''
          else trim (replace_padded ''Old'' ''Old-pic''))" by blast
  from t h6 have c6: "replace_padded ''My Note'' (''a'' @ '' - '' @ ''My Note'' @ ''_'' @ ''b'')
       = ''a'' @ CHR 0x20 # replace_padded ''My Note'' ''b''" by blast
  from t h7 have c7: "replace_padded ''My Note'' ''b'' = ''b''" by blast
  from c3 c4 c5 c6 c7 show ?thesis by (intro conjI)
qed

text \<open>
  Claim C5 as it is written fails for an empty base: a non-empty old name does not occur in
  it, and the result is the placeholder, not the unchanged base.
\<close>

theorem getCleanOriginalName_empty_base_counterexample:
  "\<not> includes_str [] ''Old'' \<and> getCleanOriginalName [] (Some ''Old'') = ''Attachment''
   \<and> getCleanOriginalName [] (Some ''Old'') \<noteq> []"
  by (simp add: getCleanOriginalName_def)

section \<open>The collision resolver\<close>

lemma resolveCollision_loop_free:
  "sfx < 500 \<Longrightarrow> unoccupiedOrSelf H h cur fp \<Longrightarrow>
   resolveCollision_loop H h cur folder base ext fp sfx = fp"
  by (subst resolveCollision_loop.simps) (simp add: unoccupiedOrSelf_def split: option.splits)

lemma resolveCollision_loop_taken:
  "sfx < 500 \<Longrightarrow> \<not> unoccupiedOrSelf H h cur fp \<Longrightarrow>
   resolveCollision_loop H h cur folder base ext fp sfx =
     resolveCollision_loop H h cur folder base ext
       (collisionCandidate H desired folder base ext (sfx + 1)) (sfx + 1)"
  by (subst resolveCollision_loop.simps)
     (simp add: unoccupiedOrSelf_def collisionCandidate_def split: option.splits)

lemma resolveCollision_loop_end:
  "\<not> sfx < 500 \<Longrightarrow> resolveCollision_loop H h cur folder base ext fp sfx = file_path H h cur"
  by (subst resolveCollision_loop.simps) simp

lemma resolveCollision_loop_first_free:
  assumes "k < 500" "unoccupiedOrSelf H h cur (collisionCandidate H desired folder base ext k)"
  shows "s \<le> k \<Longrightarrow>
         (\<forall>j. s \<le> j \<and> j < k \<longrightarrow>
              \<not> unoccupiedOrSelf H h cur (collisionCandidate H desired folder base ext j)) \<Longrightarrow>
         resolveCollision_loop H h cur folder base ext
           (collisionCandidate H desired folder base ext s) s
         = collisionCandidate H desired folder base ext k"
proof (induction "k - s" arbitrary: s)
  case 0
  then have "s = k" by simp
  with assms show ?case by (simp add: resolveCollision_loop_free)
next
  case (Suc d)
  then have lt: "s < k" and s500: "s < 500" using assms(1) by simp_all
  with Suc.prems have taken:
    "\<not> unoccupiedOrSelf H h cur (collisionCandidate H desired folder base ext s)" by simp
  have "resolveCollision_loop H h cur folder base ext
          (collisionCandidate H desired folder base ext s) s
        = resolveCollision_loop H h cur folder base ext
            (collisionCandidate H desired folder base ext (s + 1)) (s + 1)"
    using s500 taken by (rule resolveCollision_loop_taken)
  also have "\<dots> = collisionCandidate H desired folder base ext k"
  proof (rule Suc.hyps(1))
    show "d = k - (s + 1)" using Suc.hyps(2) by simp
    show "s + 1 \<le> k" using lt by simp
    show "\<forall>j. s + 1 \<le> j \<and> j < k \<longrightarrow>
            \<not> unoccupiedOrSelf H h cur (collisionCandidate H desired folder base ext j)"
      using Suc.prems(2) by simp
  qed
  finally show ?case .
qed

lemma resolveCollision_loop_exhausted:
  "s \<le> 500 \<Longrightarrow>
   (\<forall>j. s \<le> j \<and> j < 500 \<longrightarrow>
        \<not> unoccupiedOrSelf H h cur (collisionCandidate H desired folder base ext j)) \<Longrightarrow>
   resolveCollision_loop H h cur folder base ext
     (collisionCandidate H desired folder base ext s) s = file_path H h cur"
proof (induction "500 - s" arbitrary: s)
  case 0
  then have "\<not> s < 500" by simp
  then show ?case by (rule resolveCollision_loop_end)
next
  case (Suc d)
  then have s500: "s < 500" by simp
  with Suc.prems have taken:
    "\<not> unoccupiedOrSelf H h cur (collisionCandidate H desired folder base ext s)" by simp
  have "resolveCollision_loop H h cur folder base ext
          (collisionCandidate H desired folder base ext s) s
        = resolveCollision_loop H h cur folder base ext
            (collisionCandidate H desired folder base ext (s + 1)) (s + 1)"
    using s500 taken by (rule resolveCollision_loop_taken)
  also have "\<dots> = file_path H h cur"
  proof (rule Suc.hyps(1))
    show "d = 500 - (s + 1)" using Suc.hyps(2) by simp
    show "s + 1 \<le> 500" using s500 by simp
    show "\<forall>j. s + 1 \<le> j \<and> j < 500 \<longrightarrow>
            \<not> unoccupiedOrSelf H h cur (collisionCandidate H desired folder base ext j)"
      using Suc.prems(2) by simp
  qed
  finally show ?case .
qed

lemma resolveCollision_first_free:
  assumes "k < 500" "unoccupiedOrSelf H h cur
             (collisionCandidate H desired folder base (file_extension H h cur) k)"
    "\<forall>j<k. \<not> unoccupiedOrSelf H h cur
             (collisionCandidate H desired folder base (file_extension H h cur) j)"
  shows "resolveCollision H h desired cur folder base
           = collisionCandidate H desired folder base (file_extension H h cur) k"
proof -
  have "resolveCollision_loop H h cur folder base (file_extension H h cur)
          (collisionCandidate H desired folder base (file_extension H h cur) 0) 0
        = collisionCandidate H desired folder base (file_extension H h cur) k"
    using assms by (intro resolveCollision_loop_first_free) simp_all
  then show ?thesis by (simp add: resolveCollision_def collisionCandidate_def)
qed

lemma resolveCollision_exhausted:
  assumes "\<forall>j<500. \<not> unoccupiedOrSelf H h cur
             (collisionCandidate H desired folder base (file_extension H h cur) j)"
  shows "resolveCollision H h desired cur folder base = file_path H h cur"
proof -
  have "resolveCollision_loop H h cur folder base (file_extension H h cur)
          (collisionCandidate H desired folder base (file_extension H h cur) 0) 0
        = file_path H h cur"
    using assms by (intro resolveCollision_loop_exhausted) simp_all
  then show ?thesis by (simp add: resolveCollision_def collisionCandidate_def)
qed

text \<open>The result is the first candidate that passes the test, or the current path.\<close>

lemma resolveCollision_result:
  "(\<exists>k<500. resolveCollision H h desired cur folder base
              = collisionCandidate H desired folder base (file_extension H h cur) k
            \<and> unoccupiedOrSelf H h cur (resolveCollision H h desired cur folder base))
   \<or> ((\<forall>j<500. \<not> unoccupiedOrSelf H h cur
               (collisionCandidate H desired folder base (file_extension H h cur) j))
      \<and> resolveCollision H h desired cur folder base = file_path H h cur)"
proof (cases "\<exists>k<500. unoccupiedOrSelf H h cur
                 (collisionCandidate H desired folder base (file_extension H h cur) k)")
  case True
  let ?free = "\<lambda>k. k < 500 \<and> unoccupiedOrSelf H h cur
                 (collisionCandidate H desired folder base (file_extension H h cur) k)"
  from True have ex: "\<exists>k. ?free k" by blast
  define k where "k = (LEAST k. ?free k)"
  from ex have fk: "?free k" unfolding k_def by (rule LeastI_ex)
  have "\<forall>j<k. \<not> unoccupiedOrSelf H h cur
             (collisionCandidate H desired folder base (file_extension H h cur) j)"
  proof (intro allI impI)
    fix j assume "j < k"
    then have "\<not> ?free j" unfolding k_def by (rule not_less_Least)
    moreover from \<open>j < k\<close> fk have "j < 500" by simp
    ultimately show "\<not> unoccupiedOrSelf H h cur
             (collisionCandidate H desired folder base (file_extension H h cur) j)" by simp
  qed
  with fk have "resolveCollision H h desired cur folder base
           = collisionCandidate H desired folder base (file_extension H h cur) k"
    by (intro resolveCollision_first_free) simp_all
  with fk show ?thesis by auto
next
  case False
  then have all: "\<forall>j<500. \<not> unoccupiedOrSelf H h cur
               (collisionCandidate H desired folder base (file_extension H h cur) j)" by blast
  then show ?thesis using resolveCollision_exhausted [OF all] by blast
qed

text \<open>
  Claim C2. \<open>resolveCollision\<close> returns the desired path when nothing is at that path or
  when what is there has the path of the current file. Otherwise it tries the paths
  \<^verbatim>\<open>{targetFolder}/{baseName} {k}.{ext}\<close> for \<open>k = 1, 2, 3, \<dots>\<close> and returns the first that
  passes the same test; the loop makes at most 500 tests (the desired path and the suffixes
  1 to 499), and when all of them fail it returns the current path of the file. So the
  result is the current path or a path that is unoccupied or occupied by the file itself; and
  it is always unoccupied or occupied by the file itself when the current path of the file
  is (as it is when the host keeps the file at its path).
\<close>

theorem resolveCollision_correct:
  "(unoccupiedOrSelf H h cur desired \<longrightarrow>
      resolveCollision H h desired cur folder base = desired)
   \<and> (k < 500
      \<and> unoccupiedOrSelf H h cur (collisionCandidate H desired folder base (file_extension H h cur) k)
      \<and> (\<forall>j<k. \<not> unoccupiedOrSelf H h cur
                   (collisionCandidate H desired folder base (file_extension H h cur) j)) \<longrightarrow>
      resolveCollision H h desired cur folder base
        = collisionCandidate H desired folder base (file_extension H h cur) k)
   \<and> ((\<forall>j<500. \<not> unoccupiedOrSelf H h cur
                   (collisionCandidate H desired folder base (file_extension H h cur) j)) \<longrightarrow>
      resolveCollision H h desired cur folder base = file_path H h cur)
   \<and> (resolveCollision H h desired cur folder base = file_path H h cur
      \<or> unoccupiedOrSelf H h cur (resolveCollision H h desired cur folder base))
   \<and> (unoccupiedOrSelf H h cur (file_path H h cur) \<longrightarrow>
      unoccupiedOrSelf H h cur (resolveCollision H h desired cur folder base))"
proof -
  have a: "unoccupiedOrSelf H h cur desired \<longrightarrow>
      resolveCollision H h desired cur folder base = desired"
    using resolveCollision_first_free [of 0 H h cur desired folder base]
    by (simp add: collisionCandidate_def)
  have b: "k < 500
      \<and> unoccupiedOrSelf H h cur (collisionCandidate H desired folder base (file_extension H h cur) k)
      \<and> (\<forall>j<k. \<not> unoccupiedOrSelf H h cur
                   (collisionCandidate H desired folder base (file_extension H h cur) j)) \<longrightarrow>
      resolveCollision H h desired cur folder base
        = collisionCandidate H desired folder base (file_extension H h cur) k"
    using resolveCollision_first_free [of k H h cur desired folder base] by blast
  have c: "(\<forall>j<500. \<not> unoccupiedOrSelf H h cur
                   (collisionCandidate H desired folder base (file_extension H h cur) j)) \<longrightarrow>
      resolveCollision H h desired cur folder base = file_path H h cur"
    using resolveCollision_exhausted [of H h cur desired folder base] by blast
  have d: "resolveCollision H h desired cur folder base = file_path H h cur
      \<or> unoccupiedOrSelf H h cur (resolveCollision H h desired cur folder base)"
    using resolveCollision_result [of H h desired cur folder base] by blast
  from d have e: "unoccupiedOrSelf H h cur (file_path H h cur) \<longrightarrow>
      unoccupiedOrSelf H h cur (resolveCollision H h desired cur folder base)" by auto
  from a b c d e show ?thesis by (intro conjI)
qed

theorem resolveCollision_correct_witness:
  "resolveCollision vault_host example_vault ''assets/Note pic.png'' 1 ''assets'' ''Note pic''
     = ''assets/Note pic.png''
   \<and> resolveCollision vault_host busy_vault ''pic.png'' 1 ''/'' ''pic'' = ''pic 2.png''
   \<and> resolveCollision crowded_host example_vault ''assets/Note pic.png'' 1 ''assets'' ''Note pic''
     = ''pic.png''
   \<and> unoccupiedOrSelf vault_host busy_vault 1
       (resolveCollision vault_host busy_vault ''pic.png'' 1 ''/'' ''pic'')"
proof -
  have 1: "resolveCollision vault_host example_vault ''assets/Note pic.png'' 1 ''assets'' ''Note pic''
     = ''assets/Note pic.png''"
  proof -
    have "unoccupiedOrSelf vault_host example_vault 1 ''assets/Note pic.png''" by code_simp
    with resolveCollision_correct [of vault_host example_vault 1 "''assets/Note pic.png''"
        "''assets''" "''Note pic''"]
    show ?thesis by blast
  qed
  let ?c = "\<lambda>k. collisionCandidate vault_host ''pic.png'' ''/'' ''pic''
                  (file_extension vault_host busy_vault 1) k"
  have c0: "\<not> unoccupiedOrSelf vault_host busy_vault 1 (?c 0)" by code_simp
  have c1: "\<not> unoccupiedOrSelf vault_host busy_vault 1 (?c 1)" by code_simp
  have c2: "unoccupiedOrSelf vault_host busy_vault 1 (?c 2)" by code_simp
  have e2: "?c 2 = ''pic 2.png''" by code_simp
  have own: "unoccupiedOrSelf vault_host busy_vault 1 (file_path vault_host busy_vault 1)"
    by code_simp
  have "\<forall>j<2. \<not> unoccupiedOrSelf vault_host busy_vault 1 (?c j)"
  proof (intro allI impI)
    fix j :: nat assume "j < 2"
    then have "j = 0 \<or> j = 1" by auto
    with c0 c1 show "\<not> unoccupiedOrSelf vault_host busy_vault 1 (?c j)" by auto
  qed
  with c2 own resolveCollision_correct [of vault_host busy_vault 1 "''pic.png''" "''/''" "''pic''" 2]
  have r: "resolveCollision vault_host busy_vault ''pic.png'' 1 ''/'' ''pic'' = ?c 2
        \<and> unoccupiedOrSelf vault_host busy_vault 1
            (resolveCollision vault_host busy_vault ''pic.png'' 1 ''/'' ''pic'')"
    by simp
  from r e2 have 2: "resolveCollision vault_host busy_vault ''pic.png'' 1 ''/'' ''pic'' = ''pic 2.png''"
    by simp
  note 4 = conjunct2 [OF r]
  have "\<forall>j<500. \<not> unoccupiedOrSelf crowded_host example_vault 1
          (collisionCandidate crowded_host ''assets/Note pic.png'' ''assets'' ''Note pic''
             (file_extension crowded_host example_vault 1) j)"
    by (simp add: unoccupiedOrSelf_def crowded_host_def vault_host_def collisionCandidate_def
        vault_path_def example_vault_def)
  with resolveCollision_correct [of crowded_host example_vault 1 "''assets/Note pic.png''"
        "''assets''" "''Note pic''"]
  have "resolveCollision crowded_host example_vault ''assets/Note pic.png'' 1 ''assets'' ''Note pic''
     = file_path crowded_host example_vault 1" by blast
  moreover have "file_path crowded_host example_vault 1 = ''pic.png''" by code_simp
  ultimately have 3: "resolveCollision crowded_host example_vault ''assets/Note pic.png'' 1
     ''assets'' ''Note pic'' = ''pic.png''" by simp
  from 1 2 3 4 show ?thesis by (intro conjI)
qed

section \<open>The pass over one note\<close>

lemma getRuleForExtension_None_iff:
  "getRuleForExtension settings ext = None \<longleftrightarrow>
     (\<forall>r\<in>set (rules settings). \<forall>e\<in>set (extensions r). toLowerCase e \<noteq> toLowerCase ext)"
  by (auto simp: getRuleForExtension_def find_None_iff list_ex_iff)

text \<open>
  Claim C4. A target whose extension no rule matches is left alone when the list of rules is
  not empty: the round changes nothing (no rename, no use of the default patterns). When the
  list of rules is empty, every target that is still to be processed (its path was not
  processed before and the file is there) is renamed with the default name pattern and the
  default path pattern, in the mode that moves, whatever its extension. A rule matches an
  extension when one of its extensions equals it up to case.
\<close>

theorem processTarget_allowlist:
  "(getRuleForExtension settings (file_extension H (host (plugin ls)) (attFile t)) = None
      \<and> rules settings \<noteq> [] \<longrightarrow>
      processTarget H settings noteFile oldNoteName t ls = ls)
   \<and> (rules settings = [] \<longrightarrow>
      processTarget H settings noteFile oldNoteName t ls =
        (if file_path H (host (plugin ls)) (attFile t) \<in> processedPaths ls
            \<or> getAbstractFileByPath H (host (plugin ls))
                 (file_path H (host (plugin ls)) (attFile t)) = None
         then ls
         else renameTarget H noteFile oldNoteName t
                (defaultNamePattern settings, defaultPathPattern settings, LocPattern) ls))
   \<and> (getRuleForExtension settings ext = None \<longleftrightarrow>
        (\<forall>r\<in>set (rules settings). \<forall>e\<in>set (extensions r). toLowerCase e \<noteq> toLowerCase ext))"
proof -
  have a: "getRuleForExtension settings (file_extension H (host (plugin ls)) (attFile t)) = None
      \<and> rules settings \<noteq> [] \<longrightarrow>
      processTarget H settings noteFile oldNoteName t ls = ls"
    by (simp add: processTarget_def Let_def)
  have "rules settings = [] \<Longrightarrow> getRuleForExtension settings e = None" for e
    by (simp add: getRuleForExtension_def)
  then have b: "rules settings = [] \<longrightarrow>
      processTarget H settings noteFile oldNoteName t ls =
        (if file_path H (host (plugin ls)) (attFile t) \<in> processedPaths ls
            \<or> getAbstractFileByPath H (host (plugin ls))
                 (file_path H (host (plugin ls)) (attFile t)) = None
         then ls
         else renameTarget H noteFile oldNoteName t
                (defaultNamePattern settings, defaultPathPattern settings, LocPattern) ls)"
    by (simp add: processTarget_def Let_def effectivePatterns_def)
  from a b getRuleForExtension_None_iff [of settings ext] show ?thesis by (intro conjI)
qed

theorem processTarget_allowlist_witness:
  "processTarget vault_host DEFAULT_SETTINGS 0 None
      \<lparr> attFile = 1, originalPath = ''notes.txt'', index = 0 \<rparr>
      \<lparr> plugin = \<lparr> host = text_vault, isProcessing = {''Note.md''} \<rparr>, processedPaths = {},
        checkedFolders = {}, renameCount = 0 \<rparr>
    = \<lparr> plugin = \<lparr> host = text_vault, isProcessing = {''Note.md''} \<rparr>, processedPaths = {},
        checkedFolders = {}, renameCount = 0 \<rparr>
   \<and> processTarget vault_host (DEFAULT_SETTINGS\<lparr>rules := []\<rparr>) 0 None
      \<lparr> attFile = 1, originalPath = ''notes.txt'', index = 0 \<rparr>
      \<lparr> plugin = \<lparr> host = text_vault, isProcessing = {''Note.md''} \<rparr>, processedPaths = {},
        checkedFolders = {}, renameCount = 0 \<rparr>
    = renameTarget vault_host 0 None \<lparr> attFile = 1, originalPath = ''notes.txt'', index = 0 \<rparr>
        (''${filename} ${original}'', ''./attachments'', LocPattern)
        \<lparr> plugin = \<lparr> host = text_vault, isProcessing = {''Note.md''} \<rparr>, processedPaths = {},
          checkedFolders = {}, renameCount = 0 \<rparr>
   \<and> fst (processNoteAttachments vault_host DEFAULT_SETTINGS
            \<lparr> host = text_vault, isProcessing = {} \<rparr> 0 None) = 0
   \<and> fst (processNoteAttachments vault_host (DEFAULT_SETTINGS\<lparr>rules := []\<rparr>)
            \<lparr> host = text_vault, isProcessing = {} \<rparr> 0 None) = 1"
proof -
  let ?t = "\<lparr> attFile = 1, originalPath = ''notes.txt'', index = 0 \<rparr>"
  let ?ls = "\<lparr> plugin = \<lparr> host = text_vault, isProcessing = {''Note.md''} \<rparr>, processedPaths = {},
        checkedFolders = {}, renameCount = 0 \<rparr>"
  have h1: "getRuleForExtension DEFAULT_SETTINGS (file_extension vault_host (host (plugin ?ls)) (attFile ?t)) = None
      \<and> rules DEFAULT_SETTINGS \<noteq> []" by code_simp
  have h2: "rules (DEFAULT_SETTINGS\<lparr>rules := []\<rparr>) = []" by simp
  have h3: "\<not> (file_path vault_host (host (plugin ?ls)) (attFile ?t) \<in> processedPaths ?ls
            \<or> getAbstractFileByPath vault_host (host (plugin ?ls))
                 (file_path vault_host (host (plugin ?ls)) (attFile ?t)) = None)" by code_simp
  have d: "defaultNamePattern (DEFAULT_SETTINGS\<lparr>rules := []\<rparr>) = ''${filename} ${original}''"
    "defaultPathPattern (DEFAULT_SETTINGS\<lparr>rules := []\<rparr>) = ''./attachments''"
    by (simp_all add: DEFAULT_SETTINGS_def)
  from processTarget_allowlist [of DEFAULT_SETTINGS vault_host ?ls ?t 0 None] h1
  have 1: "processTarget vault_host DEFAULT_SETTINGS 0 None ?t ?ls = ?ls" by blast
  from processTarget_allowlist [of "DEFAULT_SETTINGS\<lparr>rules := []\<rparr>" vault_host ?ls ?t 0 None] h2
  have eq: "processTarget vault_host (DEFAULT_SETTINGS\<lparr>rules := []\<rparr>) 0 None ?t ?ls =
        (if file_path vault_host (host (plugin ?ls)) (attFile ?t) \<in> processedPaths ?ls
            \<or> getAbstractFileByPath vault_host (host (plugin ?ls))
                 (file_path vault_host (host (plugin ?ls)) (attFile ?t)) = None
         then ?ls
         else renameTarget vault_host 0 None ?t
                (defaultNamePattern (DEFAULT_SETTINGS\<lparr>rules := []\<rparr>),
                 defaultPathPattern (DEFAULT_SETTINGS\<lparr>rules := []\<rparr>), LocPattern) ?ls)"
    by blast
  note eq2 = trans [OF eq if_not_P [OF h3]]
  from eq2 have 2: "processTarget vault_host (DEFAULT_SETTINGS\<lparr>rules := []\<rparr>) 0 None ?t ?ls =
        renameTarget vault_host 0 None ?t (''${filename} ${original}'', ''./attachments'', LocPattern) ?ls"
    by (simp only: d)
  have 3: "fst (processNoteAttachments vault_host DEFAULT_SETTINGS
            \<lparr> host = text_vault, isProcessing = {} \<rparr> 0 None) = 0" by code_simp
  have 4: "fst (processNoteAttachments vault_host (DEFAULT_SETTINGS\<lparr>rules := []\<rparr>)
            \<lparr> host = text_vault, isProcessing = {} \<rparr> 0 None) = 1" by code_simp
  from 1 2 3 4 show ?thesis by (intro conjI)
qed

lemma tryRename_cases:
  "tryRename H h checked folder mode f fp = (h', checked', renamed) \<Longrightarrow>
   (h' = h \<and> \<not> renamed) \<or>
   (\<exists>h1. (h1 = h \<or> (mode \<noteq> LocOriginal \<and> ensureFolderExists H h folder = Inr h1)) \<and>
         ((h' = h1 \<and> \<not> renamed) \<or> (renameFile H h1 f fp = Inr h' \<and> renamed)))"
  by (auto simp: tryRename_def split: if_splits sum.splits)

lemma ensureFolderExists_path:
  "hostKeepsPath H noteFile \<Longrightarrow> ensureFolderExists H h p = Inr h' \<Longrightarrow>
   file_path H h' noteFile = file_path H h noteFile"
  by (auto simp: ensureFolderExists_def hostKeepsPath_def Let_def
           split: if_splits option.splits TAbstractFile.splits)

lemma tryRename_path:
  assumes "hostKeepsPath H noteFile" "f \<noteq> noteFile"
    "tryRename H h checked folder mode f fp = (h', checked', renamed)"
  shows "file_path H h' noteFile = file_path H h noteFile"
proof -
  from assms(1,2) have rn: "\<And>h1 h2. renameFile H h1 f fp = Inr h2 \<Longrightarrow>
      file_path H h2 noteFile = file_path H h1 noteFile"
    unfolding hostKeepsPath_def by blast
  from tryRename_cases [OF assms(3)] show ?thesis
    using ensureFolderExists_path [OF assms(1)] rn by metis
qed

lemma renameTarget_isProcessing:
  "isProcessing (plugin (renameTarget H noteFile oldNoteName t pats ls)) = isProcessing (plugin ls)"
  by (simp add: renameTarget_def Let_def split: prod.splits)

lemma renameTarget_path:
  assumes "hostKeepsPath H noteFile" "attFile t \<noteq> noteFile"
  shows "file_path H (host (plugin (renameTarget H noteFile oldNoteName t pats ls))) noteFile
           = file_path H (host (plugin ls)) noteFile"
  using tryRename_path [OF assms]
  by (simp add: renameTarget_def Let_def split: prod.splits)

lemma processTarget_isProcessing:
  "isProcessing (plugin (processTarget H settings noteFile oldNoteName t ls)) = isProcessing (plugin ls)"
  by (simp add: processTarget_def Let_def renameTarget_isProcessing)

lemma processTarget_path:
  "hostKeepsPath H noteFile \<Longrightarrow> attFile t \<noteq> noteFile \<Longrightarrow>
   file_path H (host (plugin (processTarget H settings noteFile oldNoteName t ls))) noteFile
     = file_path H (host (plugin ls)) noteFile"
  by (simp add: processTarget_def Let_def renameTarget_path)

lemma processTargets_isProcessing:
  "isProcessing (plugin (processTargets H settings noteFile oldNoteName ts ls)) = isProcessing (plugin ls)"
  by (induction ts arbitrary: ls) (simp_all add: processTarget_isProcessing)

lemma processTargets_path:
  "hostKeepsPath H noteFile \<Longrightarrow> \<forall>t\<in>set ts. attFile t \<noteq> noteFile \<Longrightarrow>
   file_path H (host (plugin (processTargets H settings noteFile oldNoteName ts ls))) noteFile
     = file_path H (host (plugin ls)) noteFile"
  by (induction ts arbitrary: ls) (simp_all add: processTarget_path)

lemma gatherTargets_not_note:
  "gatherTargets H h noteFile refs i = Inr ts \<Longrightarrow> \<forall>t\<in>set ts. attFile t \<noteq> noteFile"
proof (induction refs arbitrary: i ts)
  case Nil
  then show ?case by simp
next
  case (Cons link refs)
  from Cons.prems obtain ts' where g: "gatherTargets H h noteFile refs (i + 1) = Inr ts'"
    and ts: "ts = ts' \<or> (\<exists>f. file_path H h f \<noteq> file_path H h noteFile \<and>
                 ts = \<lparr> attFile = f, originalPath = file_path H h f, index = i \<rparr> # ts')"
    by (auto simp: Let_def split: sum.splits option.splits if_splits)
  from Cons.IH [OF g] have "\<forall>t\<in>set ts'. attFile t \<noteq> noteFile" .
  with ts show ?case by auto
qed

lemma waitForCache_path:
  "hostKeepsPath H noteFile \<Longrightarrow>
   file_path H (snd (waitForCache H h noteFile cache retries)) noteFile = file_path H h noteFile"
proof (induction H h noteFile cache retries rule: waitForCache.induct)
  case (1 H h noteFile cache retries)
  from "1.prems" have sl: "file_path H (sleep H h) noteFile = file_path H h noteFile"
    by (simp add: hostKeepsPath_def)
  show ?case
  proof (cases "cache = None \<and> retries < 10")
    case False
    then show ?thesis by (subst waitForCache.simps) auto
  next
    case True
    show ?thesis
    proof (cases "getFileCache H (sleep H h) noteFile")
      case (Inl e)
      with True sl show ?thesis by (subst waitForCache.simps) (simp add: Let_def)
    next
      case (Inr cache')
      with True "1.IH" [OF True refl Inr "1.prems"] sl
      show ?thesis by (subst waitForCache.simps) (simp add: Let_def)
    qed
  qed
qed

lemma passBody_isProcessing:
  "isProcessing (snd (passBody H settings st noteFile oldNoteName)) = isProcessing st"
  by (simp add: passBody_def Let_def processTargets_isProcessing
           split: sum.splits prod.splits option.splits)

lemma passBody_path:
  assumes "hostKeepsPath H noteFile"
  shows "file_path H (host (snd (passBody H settings st noteFile oldNoteName))) noteFile
           = file_path H (host st) noteFile"
proof (cases "getFileCache H (host st) noteFile")
  case (Inl e)
  then show ?thesis by (simp add: passBody_def)
next
  case (Inr cache0)
  obtain r h where w: "waitForCache H (host st) noteFile cache0 0 = (r, h)"
    by (cases "waitForCache H (host st) noteFile cache0 0") auto
  with waitForCache_path [OF assms, of "host st" cache0 0]
  have h: "file_path H h noteFile = file_path H (host st) noteFile" by simp
  have loop: "file_path H (host (plugin (processTargets H settings noteFile oldNoteName ts
                 \<lparr> plugin = st\<lparr>host := h\<rparr>, processedPaths = {}, checkedFolders = {},
                   renameCount = 0 \<rparr>))) noteFile = file_path H (host st) noteFile"
    if "gatherTargets H h noteFile refs 0 = Inr ts" for refs ts
    using processTargets_path [OF assms gatherTargets_not_note [OF that]] h by simp
  show ?thesis
    using Inr w h loop
    by (simp add: passBody_def Let_def split: sum.splits option.splits)
qed

lemma map_of_rename_other:
  "f \<noteq> g \<Longrightarrow> map_of (map (\<lambda>e. if fst e = f then (f, p) else e) xs) g = map_of xs g"
  by (induction xs) auto

lemma vault_host_keeps: "hostKeepsPath vault_host noteFile"
  by (auto simp: hostKeepsPath_def vault_host_def vault_path_def vault_rename_def
        vault_createFolder_def map_of_rename_other split: if_splits)

lemma failing_host_keeps: "hostKeepsPath failing_host noteFile"
  using vault_host_keeps [of noteFile]
  by (simp add: hostKeepsPath_def failing_host_def)

text \<open>
  The guard of \<open>processNoteAttachments\<close>. When the path of the note is in the set of the
  notes in progress, the pass returns 0 and leaves the state as it is. Otherwise it puts the
  path into the set and runs the body; the body and every round of its loop leave the set as
  it is; at the end the path that the note has then is taken out of the set, whether the body
  returned a count or threw an error, and an error gives the count 0. When the host keeps the
  path of the note during the pass, the set is at the end what it was at the beginning.
\<close>

lemma guard_when_path_kept:
  "(file_path H (host st) noteFile \<in> isProcessing st \<longrightarrow>
      processNoteAttachments H settings st noteFile oldNoteName = (0, st))
   \<and> (file_path H (host st) noteFile \<notin> isProcessing st \<longrightarrow>
      processNoteAttachments H settings st noteFile oldNoteName =
        (case passBody H settings
                (st\<lparr>isProcessing := insert (file_path H (host st) noteFile) (isProcessing st)\<rparr>)
                noteFile oldNoteName of
           (result, st2) \<Rightarrow>
             ((case result of Inl e \<Rightarrow> 0 | Inr count \<Rightarrow> count),
              st2\<lparr>isProcessing := isProcessing st2 - {file_path H (host st2) noteFile}\<rparr>)))
   \<and> isProcessing (snd (passBody H settings st' noteFile oldNoteName)) = isProcessing st'
   \<and> isProcessing (plugin (processTargets H settings noteFile oldNoteName ts ls))
       = isProcessing (plugin ls)
   \<and> (file_path H (host st) noteFile \<notin> isProcessing st \<longrightarrow>
      file_path H (host (snd (processNoteAttachments H settings st noteFile oldNoteName))) noteFile
        \<notin> isProcessing (snd (processNoteAttachments H settings st noteFile oldNoteName)))
   \<and> (hostKeepsPath H noteFile \<and> file_path H (host st) noteFile \<notin> isProcessing st \<longrightarrow>
      isProcessing (snd (processNoteAttachments H settings st noteFile oldNoteName))
        = isProcessing st)
   \<and> (file_path H (host st) noteFile \<notin> isProcessing st \<and>
      fst (passBody H settings
             (st\<lparr>isProcessing := insert (file_path H (host st) noteFile) (isProcessing st)\<rparr>)
             noteFile oldNoteName) = Inl e \<longrightarrow>
      fst (processNoteAttachments H settings st noteFile oldNoteName) = 0)"
proof -
  let ?p = "file_path H (host st) noteFile"
  let ?st1 = "st\<lparr>isProcessing := insert ?p (isProcessing st)\<rparr>"
  obtain r st2 where b: "passBody H settings ?st1 noteFile oldNoteName = (r, st2)"
    by (cases "passBody H settings ?st1 noteFile oldNoteName") auto
  have s2: "isProcessing st2 = insert ?p (isProcessing st)"
    using passBody_isProcessing [of H settings ?st1 noteFile oldNoteName] b by simp
  have 1: "?p \<in> isProcessing st \<longrightarrow>
      processNoteAttachments H settings st noteFile oldNoteName = (0, st)"
    by (simp add: processNoteAttachments_def)
  have 2: "?p \<notin> isProcessing st \<longrightarrow>
      processNoteAttachments H settings st noteFile oldNoteName =
        (case passBody H settings ?st1 noteFile oldNoteName of
           (result, st2) \<Rightarrow>
             ((case result of Inl e \<Rightarrow> 0 | Inr count \<Rightarrow> count),
              st2\<lparr>isProcessing := isProcessing st2 - {file_path H (host st2) noteFile}\<rparr>))"
    by (simp add: processNoteAttachments_def Let_def)
  have 5: "?p \<notin> isProcessing st \<longrightarrow>
      file_path H (host (snd (processNoteAttachments H settings st noteFile oldNoteName))) noteFile
        \<notin> isProcessing (snd (processNoteAttachments H settings st noteFile oldNoteName))"
    using b by (simp add: processNoteAttachments_def Let_def)
  have 6: "hostKeepsPath H noteFile \<and> ?p \<notin> isProcessing st \<longrightarrow>
      isProcessing (snd (processNoteAttachments H settings st noteFile oldNoteName))
        = isProcessing st"
  proof (intro impI, elim conjE)
    assume k: "hostKeepsPath H noteFile" and n: "?p \<notin> isProcessing st"
    from passBody_path [OF k, of settings ?st1 oldNoteName] b
    have "file_path H (host st2) noteFile = ?p" by simp
    with n b s2 show "isProcessing (snd (processNoteAttachments H settings st noteFile oldNoteName))
        = isProcessing st"
      by (simp add: processNoteAttachments_def Let_def)
  qed
  have 7: "?p \<notin> isProcessing st \<and> fst (passBody H settings ?st1 noteFile oldNoteName) = Inl e \<longrightarrow>
      fst (processNoteAttachments H settings st noteFile oldNoteName) = 0"
    using b by (auto simp: processNoteAttachments_def Let_def)
  from 1 2 passBody_isProcessing [of H settings st' noteFile oldNoteName]
    processTargets_isProcessing [of H settings noteFile oldNoteName ts ls] 5 6 7
  show ?thesis by (intro conjI)
qed

text \<open>
  Claim C3 fails on the code when the note is renamed during the pass, since the
  \<^verbatim>\<open>finally\<close> block reads the path of the note again (main.ts, 330). The note
  \<^verbatim>\<open>Note.md\<close> has no metadata yet and is not in the set; during the wait of the pass the
  host renames it to \<^verbatim>\<open>Renamed.md\<close>. The pass returns 0 and leaves \<^verbatim>\<open>Note.md\<close> in the
  set. From then on a pass for a note with the path \<^verbatim>\<open>Note.md\<close> returns 0 at the guard:
  with the set that this pass left, a pass on the example vault renames nothing, where
  with the empty set it renames the picture.
\<close>

theorem guard_left_after_rename:
  "file_path renaming_host uncached_vault 0 = ''Note.md''
   \<and> processNoteAttachments renaming_host DEFAULT_SETTINGS
         \<lparr> host = uncached_vault, isProcessing = {} \<rparr> 0 None
       = (0, \<lparr> host = uncached_vault\<lparr> vault_files := [(0, ''Renamed.md''), (1, ''pic.png'')] \<rparr>,
               isProcessing = {''Note.md''} \<rparr>)
   \<and> fst (processNoteAttachments vault_host DEFAULT_SETTINGS
             \<lparr> host = example_vault, isProcessing = {} \<rparr> 0 None) = 1
   \<and> processNoteAttachments vault_host DEFAULT_SETTINGS
         \<lparr> host = example_vault,
           isProcessing = isProcessing (snd (processNoteAttachments renaming_host DEFAULT_SETTINGS
                            \<lparr> host = uncached_vault, isProcessing = {} \<rparr> 0 None)) \<rparr> 0 None
       = (0, \<lparr> host = example_vault, isProcessing = {''Note.md''} \<rparr>)"
  by code_simp
section \<open>Names and folders\<close>

lemma set_replace_runs:
  "c \<in> set (replace_runs P r s) \<Longrightarrow> c \<in> set r \<or> (c \<in> set s \<and> \<not> P c)"
proof (induction P r s rule: replace_runs.induct)
  case (1 P r)
  then show ?case by simp
next
  case (2 P r d s)
  show ?case
  proof (cases "P d")
    case True
    with "2.prems" have "c \<in> set r \<or> c \<in> set (replace_runs P r (dropWhile P s))" by simp
    with "2.IH"(1) [OF True] have "c \<in> set r \<or> (c \<in> set (dropWhile P s) \<and> \<not> P c)" by blast
    then show ?thesis by (auto dest: set_dropWhileD)
  next
    case False
    with "2.prems" have "c = d \<or> c \<in> set (replace_runs P r s)" by simp
    with "2.IH"(2) [OF False] False show ?thesis by auto
  qed
qed

lemma set_trim: "c \<in> set (trim s) \<Longrightarrow> c \<in> set s"
  by (auto simp: trim_def dest!: set_dropWhileD)

lemma slash_illegal: "is_slash c \<Longrightarrow> is_illegal c"
  by (auto simp: is_slash_def is_illegal_def)

lemma sanitizeName_clean: "cleanPart (sanitizeName s)"
proof -
  have "\<not> is_slash c \<and> c \<noteq> CHR 0xA0" if c: "c \<in> set (sanitizeName s)" for c
  proof -
    from c have "c \<in> set (replace_runs is_space '' '' (replace_runs is_illegal ''-'' s))"
      by (simp add: sanitizeName_def set_trim)
    then have "c \<in> set '' '' \<or> (c \<in> set (replace_runs is_illegal ''-'' s) \<and> \<not> is_space c)"
      by (rule set_replace_runs)
    moreover have "c \<in> set ''-'' \<or> (c \<in> set s \<and> \<not> is_illegal c)"
      if "c \<in> set (replace_runs is_illegal ''-'' s)"
      using that by (rule set_replace_runs)
    ultimately have alt: "c = CHR 0x20 \<or> (\<not> is_space c \<and> (c = CHR ''-'' \<or> \<not> is_illegal c))"
      by auto
    have sp: "is_space (CHR 0xA0)" by (simp add: is_space_def)
    have ns: "\<not> is_slash (CHR 0x20)" "\<not> is_slash (CHR ''-'')" by (simp_all add: is_slash_def)
    have ne: "CHR 0x20 \<noteq> CHR 0xA0" by simp
    from alt sp ns ne slash_illegal [of c] show ?thesis by blast
  qed
  then show ?thesis by (simp add: cleanPart_def list_all_iff)
qed

lemma newBaseName_clean: "cleanPart (newBaseName p v)"
proof (cases "sanitizeName (applyVariables p v) = []")
  case True
  then show ?thesis by (simp add: newBaseName_def cleanPart_def is_slash_def)
next
  case False
  then show ?thesis using sanitizeName_clean [of "applyVariables p v"] by (simp add: newBaseName_def)
qed

lemma digit_clean: "n < 10 \<Longrightarrow> \<not> is_slash (digit n) \<and> digit n \<noteq> CHR 0xA0"
proof -
  assume n: "n < 10"
  then have e: "of_char (digit n) = 48 + n" by (simp add: digit_def)
  have "digit n \<noteq> c" if "of_char c \<noteq> 48 + n" for c
  proof
    assume "digit n = c"
    with e have "of_char c = 48 + n" by simp
    with that show False by simp
  qed
  moreover have "of_char (CHR ''/'') \<noteq> 48 + n" "of_char (CHR 0x5C) \<noteq> 48 + n"
    "of_char (CHR 0xA0) \<noteq> 48 + n" using n by simp_all
  ultimately have "digit n \<noteq> CHR ''/''" "digit n \<noteq> CHR 0x5C" "digit n \<noteq> CHR 0xA0" by blast+
  then show ?thesis by (simp add: is_slash_def)
qed

lemma string_of_nat_clean: "cleanPart (string_of_nat k)"
proof (induction k rule: string_of_nat.induct)
  case (1 n)
  show ?case
  proof (cases "n < 10")
    case True
    then show ?thesis
      using digit_clean [of n] by (subst string_of_nat.simps) (simp add: cleanPart_def)
  next
    case False
    have "n mod 10 < 10" by simp
    with False "1.IH" digit_clean [of "n mod 10"] show ?thesis
      by (subst string_of_nat.simps) (simp add: cleanPart_def)
  qed
qed

lemma cleanPart_append: "cleanPart (a @ b) \<longleftrightarrow> cleanPart a \<and> cleanPart b"
  unfolding cleanPart_def by (rule list_all_append)

lemma cleanPart_no_slash: "cleanPart n \<Longrightarrow> CHR ''/'' \<notin> set n \<and> CHR 0x5C \<notin> set n \<and> CHR 0xA0 \<notin> set n"
  by (auto simp: cleanPart_def list_all_iff is_slash_def)

lemma replace_runs_single_slashes:
  "no_double_slash x \<Longrightarrow> CHR 0x5C \<notin> set x \<Longrightarrow> replace_runs is_slash ''/'' x = x"
proof (induction x rule: no_double_slash.induct)
  case 1
  show ?case by simp
next
  case (2 c)
  then show ?case by (auto simp: is_slash_def)
next
  case (3 c d s)
  then have d: "\<not> (c = CHR ''/'' \<and> d = CHR ''/'')" "d \<noteq> CHR 0x5C" "c \<noteq> CHR 0x5C" by auto
  from 3 have ih: "replace_runs is_slash ''/'' (d # s) = d # s" by simp
  show ?case
  proof (cases "is_slash c")
    case True
    with d have "c = CHR ''/''" "\<not> is_slash d" by (auto simp: is_slash_def)
    with True ih show ?thesis by simp
  next
    case False
    with ih show ?thesis by simp
  qed
qed

lemma no_double_slash_plain: "CHR ''/'' \<notin> set n \<Longrightarrow> no_double_slash (c # n)"
proof (induction n arbitrary: c)
  case Nil
  show ?case by simp
next
  case (Cons d n)
  then have "d \<noteq> CHR ''/''" "no_double_slash (d # n)" by auto
  then show ?case by simp
qed

lemma no_double_slash_append:
  "no_double_slash a \<Longrightarrow> no_double_slash b \<Longrightarrow> a \<noteq> [] \<Longrightarrow> last a \<noteq> CHR ''/'' \<Longrightarrow>
   no_double_slash (a @ b)"
proof (induction a rule: no_double_slash.induct)
  case 1
  then show ?case by simp
next
  case (2 c)
  then show ?case by (cases b) simp_all
next
  case (3 c d s)
  then show ?case by simp
qed

lemma dropWhile_hd: "xs \<noteq> [] \<Longrightarrow> \<not> P (hd xs) \<Longrightarrow> dropWhile P xs = xs"
  by (cases xs) auto

lemma strip_slashes_id:
  assumes "x \<noteq> []" "hd x \<noteq> CHR ''/''" "last x \<noteq> CHR ''/''"
  shows "strip_slashes x = x"
proof -
  from assms have "dropWhile (\<lambda>c. c = CHR ''/'') x = x" by (intro dropWhile_hd) auto
  moreover from assms have "dropWhile (\<lambda>c. c = CHR ''/'') (rev x) = rev x"
    by (intro dropWhile_hd) (auto simp: hd_rev)
  ultimately show ?thesis by (simp add: strip_slashes_def)
qed

lemma strip_slashes_leading:
  assumes "x \<noteq> []" "hd x \<noteq> CHR ''/''" "last x \<noteq> CHR ''/''"
  shows "strip_slashes (CHR ''/'' # x) = x"
proof -
  from assms have "dropWhile (\<lambda>c. c = CHR ''/'') x = x" by (intro dropWhile_hd) auto
  moreover from assms have "dropWhile (\<lambda>c. c = CHR ''/'') (rev x) = rev x"
    by (intro dropWhile_hd) (auto simp: hd_rev)
  ultimately show ?thesis by (simp add: strip_slashes_def)
qed

lemma nbsp_to_space_id: "CHR 0xA0 \<notin> set x \<Longrightarrow> nbsp_to_space x = x"
  unfolding nbsp_to_space_def by (induction x) auto

lemma path_parent_join:
  "folder \<noteq> [] \<Longrightarrow> CHR ''/'' \<notin> set n \<Longrightarrow> path_parent (folder @ CHR ''/'' # n) = folder"
proof -
  assume f: "folder \<noteq> []" and n: "CHR ''/'' \<notin> set n"
  from n have "dropWhile (\<lambda>c. c \<noteq> CHR ''/'') (rev n @ CHR ''/'' # rev folder) = CHR ''/'' # rev folder"
    by (subst dropWhile_append3) auto
  with f show ?thesis by (simp add: path_parent_def)
qed

lemma path_parent_root: "CHR ''/'' \<notin> set n \<Longrightarrow> path_parent n = ''/''"
proof -
  assume "CHR ''/'' \<notin> set n"
  then have "\<forall>x\<in>set (rev n). x \<noteq> CHR ''/''" by auto
  then have e: "dropWhile (\<lambda>c. c \<noteq> CHR ''/'') (rev n) = []" by (rule dropWhile_all)
  show ?thesis unfolding path_parent_def e by simp
qed

lemma normalize_join:
  assumes folder: "cleanFolder folder" and n: "cleanPart n" "n \<noteq> []"
  shows "path_parent (obsidianNormalizePath (folder @ ''/'' @ n)) = folder"
proof -
  from n(1) have ns: "CHR ''/'' \<notin> set n" "CHR 0x5C \<notin> set n" "CHR 0xA0 \<notin> set n"
    using cleanPart_no_slash by blast+
  from n(2) have "hd n \<in> set n" by (rule hd_in_set)
  with ns have hn: "hd n \<noteq> CHR ''/''" "\<not> is_slash (hd n)"
    by (auto simp: is_slash_def)
  from n(2) have "last n \<in> set n" by (rule last_in_set)
  with ns have ln: "last n \<noteq> CHR ''/''" by auto
  show ?thesis
  proof (cases "folder = ''/''")
    case True
    have "list_all (\<lambda>c. \<not> is_slash c) n" using ns by (auto simp: list_all_iff is_slash_def)
    then have r: "replace_runs is_slash ''/'' n = n" by (rule replace_runs_none)
    have "dropWhile is_slash (CHR ''/'' # n) = n"
      using n(2) hn by (simp add: is_slash_def dropWhile_hd)
    then have "replace_runs is_slash ''/'' (CHR ''/'' # CHR ''/'' # n) = CHR ''/'' # n"
      using r by (simp add: is_slash_def)
    then have a: "collapse_slashes (''/'' @ ''/'' @ n) = CHR ''/'' # n"
      by (simp add: collapse_slashes_def)
    have b: "strip_slashes (CHR ''/'' # n) = n" using n(2) hn ln by (intro strip_slashes_leading)
    have "obsidianNormalizePath (''/'' @ ''/'' @ n) = n"
      unfolding obsidianNormalizePath_def a b Let_def using n(2) ns by (simp add: nbsp_to_space_id)
    with True ns show ?thesis by (simp add: path_parent_root)
  next
    case False
    with folder have f: "folder \<noteq> []" "hd folder \<noteq> CHR ''/''" "last folder \<noteq> CHR ''/''"
      "no_double_slash folder" "CHR 0x5C \<notin> set folder" "CHR 0xA0 \<notin> set folder"
      by (auto simp: cleanFolder_def)
    let ?x = "folder @ ''/'' @ n"
    have x: "?x \<noteq> []" "hd ?x \<noteq> CHR ''/''" "last ?x \<noteq> CHR ''/''" using f n(2) ln by simp_all
    have "no_double_slash (CHR ''/'' # n)" using ns(1) by (rule no_double_slash_plain)
    with f have "no_double_slash ?x" by (simp add: no_double_slash_append)
    moreover have "CHR 0x5C \<notin> set ?x" using f ns by simp
    ultimately have "replace_runs is_slash ''/'' ?x = ?x" by (rule replace_runs_single_slashes)
    then have a: "collapse_slashes ?x = ?x" by (simp add: collapse_slashes_def)
    have b: "strip_slashes ?x = ?x" using x by (rule strip_slashes_id)
    have "CHR 0xA0 \<notin> set ?x" using f ns by simp
    then have c: "nbsp_to_space ?x = ?x" by (rule nbsp_to_space_id)
    have d: "(if ?x = [] then ''/'' else ?x) = ?x" using x(1) by simp
    have "obsidianNormalizePath ?x = ?x"
      unfolding obsidianNormalizePath_def Let_def a b d by (rule c)
    moreover have "path_parent ?x = folder" using path_parent_join [OF f(1) ns(1)] by simp
    ultimately show ?thesis by simp
  qed
qed

lemma collisionCandidate_parent:
  assumes "normalizePath H = obsidianNormalizePath" "cleanFolder folder" "cleanPart base"
    "cleanPart ext"
  shows "path_parent (collisionCandidate H
            (normalizePath H (folder @ ''/'' @ base @ ''.'' @ ext)) folder base ext k) = folder"
proof (cases "k = 0")
  case True
  have "cleanPart (base @ ''.'' @ ext)" using assms(3,4)
    by (simp add: cleanPart_def is_slash_def)
  with assms(1,2) True show ?thesis
    using normalize_join [of folder "base @ ''.'' @ ext"] by (simp add: collisionCandidate_def)
next
  case False
  have "cleanPart (base @ '' '' @ string_of_nat k @ ''.'' @ ext)"
    using assms(3,4) string_of_nat_clean [of k] by (simp add: cleanPart_def is_slash_def)
  with assms(1,2) False show ?thesis
    using normalize_join [of folder "base @ '' '' @ string_of_nat k @ ''.'' @ ext"]
    by (simp add: collisionCandidate_def)
qed

lemma tryRename_original:
  "tryRename H h checked folder LocOriginal f fp =
     (case renameFile H h f fp of Inl e \<Rightarrow> (h, checked, False) | Inr h'' \<Rightarrow> (h'', checked, True))"
  by (simp add: tryRename_def)

lemma targetPlan_original:
  "targetPlan H h noteFile oldNoteName t (np, pp, LocOriginal) =
     (let folder = (case file_parent H h (attFile t) of Some p \<Rightarrow> p | None \<Rightarrow> ''/'');
          base = newBaseName np (templateVariables H h noteFile oldNoteName t)
      in (folder, base,
          normalizePath H (folder @ ''/'' @ base @ ''.'' @ file_extension H h (attFile t))))"
  by (simp add: targetPlan_def targetFolderPath_def Let_def)

lemma renameTarget_original:
  fixes H ls t noteFile oldNoteName np pp
  defines "h \<equiv> host (plugin ls)"
  defines "folder \<equiv> (case file_parent H h (attFile t) of Some p \<Rightarrow> p | None \<Rightarrow> ''/'')"
  defines "base \<equiv> newBaseName np (templateVariables H h noteFile oldNoteName t)"
  defines "ext \<equiv> file_extension H h (attFile t)"
  defines "ls' \<equiv> renameTarget H noteFile oldNoteName t (np, pp, LocOriginal) ls"
  shows "checkedFolders ls' = checkedFolders ls \<and>
         ((host (plugin ls') = h \<and> renameCount ls' = renameCount ls) \<or>
          (\<exists>k<500. renameFile H h (attFile t)
                      (collisionCandidate H (normalizePath H (folder @ ''/'' @ base @ ''.'' @ ext))
                         folder base ext k) = Inr (host (plugin ls'))
                  \<and> renameCount ls' = renameCount ls + 1))"
proof -
  let ?desired = "normalizePath H (folder @ ''/'' @ base @ ''.'' @ ext)"
  let ?final = "resolveCollision H h ?desired (attFile t) folder base"
  have hh: "host (plugin ls) = h" by (simp add: h_def)
  have plan: "targetPlan H h noteFile oldNoteName t (np, pp, LocOriginal) = (folder, base, ?desired)"
    by (simp add: targetPlan_original folder_def base_def ext_def Let_def)
  show ?thesis
  proof (cases "?desired = file_path H h (attFile t) \<or> ?final = file_path H h (attFile t)")
    case True
    then show ?thesis
      unfolding ls'_def renameTarget_def Let_def hh plan by (auto simp: hh)
  next
    case False
    from resolveCollision_result [of H h ?desired "attFile t" folder base] False
    obtain k where k: "k < 500" "?final = collisionCandidate H ?desired folder base ext k"
      unfolding ext_def by blast
    show ?thesis
    proof (cases "renameFile H h (attFile t) ?final")
      case (Inl e)
      with False show ?thesis
        unfolding ls'_def renameTarget_def Let_def hh plan
        by (simp add: tryRename_original hh)
    next
      case (Inr h'')
      with False have "checkedFolders ls' = checkedFolders ls" "host (plugin ls') = h''"
        "renameCount ls' = renameCount ls + 1"
        unfolding ls'_def renameTarget_def Let_def hh plan
        by (simp_all add: tryRename_original hh)
      with Inr k show ?thesis by auto
    qed
  qed
qed

text \<open>
  Claim C8. For a target whose rule has the mode that leaves the file where it is, the
  target folder is the path of the parent folder of the file (the root when it has none),
  no folder is checked or created, and the round either leaves the host as it is or renames
  the file once, to a path whose folder is that same folder, be it the desired path or one
  with a suffix. The host is taken to normalize paths as documented, and to give the path
  of the parent folder and the extension in normalized form.
\<close>

theorem original_mode_keeps_folder:
  "getRuleForExtension settings (file_extension H (host (plugin ls)) (attFile t)) = Some r
   \<and> locationMode r = Some LocOriginal
   \<and> normalizePath H = obsidianNormalizePath
   \<and> cleanFolder (case file_parent H (host (plugin ls)) (attFile t) of Some p \<Rightarrow> p | None \<Rightarrow> ''/'')
   \<and> cleanPart (file_extension H (host (plugin ls)) (attFile t))
   \<longrightarrow>
     targetFolderPath H (host (plugin ls)) noteFile t (pathPattern r) LocOriginal
       = (case file_parent H (host (plugin ls)) (attFile t) of Some p \<Rightarrow> p | None \<Rightarrow> ''/'')
     \<and> checkedFolders (processTarget H settings noteFile oldNoteName t ls) = checkedFolders ls
     \<and> ((host (plugin (processTarget H settings noteFile oldNoteName t ls)) = host (plugin ls)
          \<and> renameCount (processTarget H settings noteFile oldNoteName t ls) = renameCount ls)
        \<or> (\<exists>p. renameFile H (host (plugin ls)) (attFile t) p
                  = Inr (host (plugin (processTarget H settings noteFile oldNoteName t ls)))
              \<and> path_parent p
                  = (case file_parent H (host (plugin ls)) (attFile t) of Some p \<Rightarrow> p | None \<Rightarrow> ''/'')
              \<and> renameCount (processTarget H settings noteFile oldNoteName t ls)
                  = renameCount ls + 1))"
proof (intro impI, elim conjE)
  let ?h = "host (plugin ls)"
  let ?folder = "case file_parent H ?h (attFile t) of Some p \<Rightarrow> p | None \<Rightarrow> ''/''"
  let ?ext = "file_extension H ?h (attFile t)"
  let ?base = "newBaseName (namePattern r) (templateVariables H ?h noteFile oldNoteName t)"
  let ?ls' = "processTarget H settings noteFile oldNoteName t ls"
  assume rule: "getRuleForExtension settings ?ext = Some r"
    and mode: "locationMode r = Some LocOriginal"
    and norm: "normalizePath H = obsidianNormalizePath"
    and folder: "cleanFolder ?folder" and ext: "cleanPart ?ext"
  have a: "targetFolderPath H ?h noteFile t (pathPattern r) LocOriginal = ?folder"
    by (simp add: targetFolderPath_def)
  have pt: "?ls' = ls \<or> ?ls' = renameTarget H noteFile oldNoteName t
                                   (namePattern r, pathPattern r, LocOriginal) ls"
    using rule mode by (simp add: processTarget_def Let_def effectivePatterns_def)
  note rt = renameTarget_original [of H noteFile oldNoteName t "namePattern r" "pathPattern r" ls]
  have parent: "path_parent (collisionCandidate H
                  (normalizePath H (?folder @ ''/'' @ ?base @ ''.'' @ ?ext)) ?folder ?base ?ext k)
                = ?folder" for k
    using norm folder newBaseName_clean ext by (rule collisionCandidate_parent)
  from pt show "targetFolderPath H ?h noteFile t (pathPattern r) LocOriginal = ?folder
     \<and> checkedFolders ?ls' = checkedFolders ls
     \<and> ((host (plugin ?ls') = ?h \<and> renameCount ?ls' = renameCount ls)
        \<or> (\<exists>p. renameFile H ?h (attFile t) p = Inr (host (plugin ?ls'))
              \<and> path_parent p = ?folder
              \<and> renameCount ?ls' = renameCount ls + 1))"
  proof
    assume "?ls' = ls"
    with a show ?thesis by simp
  next
    assume eq: "?ls' = renameTarget H noteFile oldNoteName t
                        (namePattern r, pathPattern r, LocOriginal) ls"
    from rt have c: "checkedFolders ?ls' = checkedFolders ls"
      and d: "(host (plugin ?ls') = ?h \<and> renameCount ?ls' = renameCount ls) \<or>
          (\<exists>k<500. renameFile H ?h (attFile t)
                      (collisionCandidate H (normalizePath H (?folder @ ''/'' @ ?base @ ''.'' @ ?ext))
                         ?folder ?base ?ext k) = Inr (host (plugin ?ls'))
                  \<and> renameCount ?ls' = renameCount ls + 1)"
      unfolding eq by blast+
    from d parent have "(host (plugin ?ls') = ?h \<and> renameCount ?ls' = renameCount ls)
        \<or> (\<exists>p. renameFile H ?h (attFile t) p = Inr (host (plugin ?ls'))
              \<and> path_parent p = ?folder
              \<and> renameCount ?ls' = renameCount ls + 1)"
      by blast
    with a c show ?thesis by blast
  qed
qed

theorem original_mode_keeps_folder_witness:
  "file_parent vault_host folder_vault 1 = Some ''Docs/img''
   \<and> file_path vault_host
        (host (plugin (processTarget vault_host original_settings 0 None
           \<lparr> attFile = 1, originalPath = ''Docs/img/pic.png'', index = 0 \<rparr>
           \<lparr> plugin = \<lparr> host = folder_vault, isProcessing = {''Docs/Note.md''} \<rparr>,
             processedPaths = {}, checkedFolders = {}, renameCount = 0 \<rparr>))) 1
       = ''Docs/img/Note pic 1.png''
   \<and> ((host (plugin (processTarget vault_host original_settings 0 None
           \<lparr> attFile = 1, originalPath = ''Docs/img/pic.png'', index = 0 \<rparr>
           \<lparr> plugin = \<lparr> host = folder_vault, isProcessing = {''Docs/Note.md''} \<rparr>,
             processedPaths = {}, checkedFolders = {}, renameCount = 0 \<rparr>)) = folder_vault
        \<and> renameCount (processTarget vault_host original_settings 0 None
           \<lparr> attFile = 1, originalPath = ''Docs/img/pic.png'', index = 0 \<rparr>
           \<lparr> plugin = \<lparr> host = folder_vault, isProcessing = {''Docs/Note.md''} \<rparr>,
             processedPaths = {}, checkedFolders = {}, renameCount = 0 \<rparr>) = 0)
      \<or> (\<exists>p. renameFile vault_host folder_vault 1 p
                = Inr (host (plugin (processTarget vault_host original_settings 0 None
                   \<lparr> attFile = 1, originalPath = ''Docs/img/pic.png'', index = 0 \<rparr>
                   \<lparr> plugin = \<lparr> host = folder_vault, isProcessing = {''Docs/Note.md''} \<rparr>,
                     processedPaths = {}, checkedFolders = {}, renameCount = 0 \<rparr>)))
            \<and> path_parent p = ''Docs/img''
            \<and> renameCount (processTarget vault_host original_settings 0 None
                   \<lparr> attFile = 1, originalPath = ''Docs/img/pic.png'', index = 0 \<rparr>
                   \<lparr> plugin = \<lparr> host = folder_vault, isProcessing = {''Docs/Note.md''} \<rparr>,
                     processedPaths = {}, checkedFolders = {}, renameCount = 0 \<rparr>) = 0 + 1))"
proof -
  let ?t = "\<lparr> attFile = 1, originalPath = ''Docs/img/pic.png'', index = 0 \<rparr>"
  let ?ls = "\<lparr> plugin = \<lparr> host = folder_vault, isProcessing = {''Docs/Note.md''} \<rparr>,
             processedPaths = {}, checkedFolders = {}, renameCount = 0 \<rparr>"
  let ?r = "\<lparr> rule_id = ''images'', label = ''Images'', extensions = [''png''],
           namePattern = ''${filename} ${original}'', pathPattern = ''./assets'',
           locationMode = Some LocOriginal \<rparr>"
  have hs: "host (plugin ?ls) = folder_vault" "attFile ?t = 1" "renameCount ?ls = 0" by simp_all
  have h1: "getRuleForExtension original_settings
              (file_extension vault_host (host (plugin ?ls)) (attFile ?t)) = Some ?r"
    by code_simp
  have h2: "locationMode ?r = Some LocOriginal" by simp
  have h3: "normalizePath vault_host = obsidianNormalizePath" by (simp add: vault_host_def)
  have fp: "file_parent vault_host folder_vault 1 = Some ''Docs/img''" by code_simp
  have fp': "file_parent vault_host (host (plugin ?ls)) (attFile ?t) = Some ''Docs/img''"
    unfolding hs by (rule fp)
  have "cleanFolder ''Docs/img''" by (simp add: cleanFolder_def)
  then have h4: "cleanFolder (case file_parent vault_host (host (plugin ?ls)) (attFile ?t) of
                    Some p \<Rightarrow> p | None \<Rightarrow> ''/'')"
    unfolding fp' by simp
  have h5: "cleanPart (file_extension vault_host (host (plugin ?ls)) (attFile ?t))" by code_simp
  note t = original_mode_keeps_folder [of original_settings vault_host ?ls ?t ?r 0 None,
      THEN mp, OF conjI [OF h1 conjI [OF h2 conjI [OF h3 conjI [OF h4 h5]]]]]
  note c = conjunct2 [OF conjunct2 [OF t]]
  have 2: "file_path vault_host
        (host (plugin (processTarget vault_host original_settings 0 None ?t ?ls))) 1
       = ''Docs/img/Note pic 1.png''" by code_simp
  from c have 3: "(host (plugin (processTarget vault_host original_settings 0 None ?t ?ls)) = folder_vault
        \<and> renameCount (processTarget vault_host original_settings 0 None ?t ?ls) = 0)
      \<or> (\<exists>p. renameFile vault_host folder_vault 1 p
                = Inr (host (plugin (processTarget vault_host original_settings 0 None ?t ?ls)))
            \<and> path_parent p = ''Docs/img''
            \<and> renameCount (processTarget vault_host original_settings 0 None ?t ?ls) = 0 + 1)"
    using fp by simp
  from fp 2 3 show ?thesis by (intro conjI)
qed

section \<open>Two passes in a row\<close>








section \<open>The debounced trigger\<close>

text \<open>
  Claim C9 fails on the code when the note is renamed again while a timer is pending, since
  the deferred call deletes the entry of the path that the note has when the call runs
  (main.ts, 154), not the entry under which its debounced function was registered
  (main.ts, 159). With a delay of 5 ms the note \<^verbatim>\<open>Note.md\<close> is renamed to \<^verbatim>\<open>A.md\<close> at time 0
  and to \<^verbatim>\<open>B.md\<close> at time 1: there are two debounced functions, registered for \<^verbatim>\<open>A.md\<close>
  and \<^verbatim>\<open>B.md\<close>, with timers for the times 5 and 6. At time 5 the first timer fires and
  the pass runs (the picture is renamed for the note \<^verbatim>\<open>B\<close>); the entry of \<^verbatim>\<open>A.md\<close>, whose
  call has fired, stays in the map, and the entry of \<^verbatim>\<open>B.md\<close> is deleted while its timer
  is pending. When the note is then renamed to \<^verbatim>\<open>C.md\<close> and back to \<^verbatim>\<open>B.md\<close>, a new
  debounced function is registered for \<^verbatim>\<open>B.md\<close>: two timers are pending that were
  registered for \<^verbatim>\<open>B.md\<close>, for the times 6 and 10, and both start a pass. In the end four
  passes have run and the entries of \<^verbatim>\<open>A.md\<close> and \<^verbatim>\<open>C.md\<close> are left in the map.
\<close>

theorem debounce_registry_after_renames:
  "observe (run vault_host quick_settings fresh_scheduler two_renames) [''A.md'', ''B.md'']
     = ([Some 5, Some 6], [Some 0, Some 1], [])
   \<and> observe (run vault_host quick_settings fresh_scheduler first_timer_fired) [''A.md'', ''B.md'']
     = ([None, Some 6], [Some 0, None], [(0, Some ''Note'')])
   \<and> vault_files (host (pluginState (run vault_host quick_settings fresh_scheduler first_timer_fired)))
     = [(0, ''B.md''), (1, ''assets/B pic.png'')]
   \<and> observe (run vault_host quick_settings fresh_scheduler renamed_back) [''A.md'', ''B.md'', ''C.md'']
     = ([None, Some 6, Some 10, Some 10], [Some 0, Some 3, Some 2], [(0, Some ''Note'')])
   \<and> pendingTimers (run vault_host quick_settings fresh_scheduler renamed_back) = 3
   \<and> observe (run vault_host quick_settings fresh_scheduler (renamed_back @ replicate 5 Tick))
         [''A.md'', ''B.md'', ''C.md'']
     = ([None, None, None, None], [Some 0, None, Some 2],
        [(0, Some ''Note''), (0, Some ''A''), (0, Some ''B''), (0, Some ''C'')])"
  by code_simp
end
